theory Spec2Isabelle
  imports Main
begin

section \<open>Constants of the firmware\<close>

text \<open>
  The firmware is \<^verbatim>\<open>flexSensorArray_control.ino\<close>, written for an Arduino Mega.
  C \<^verbatim>\<open>int\<close> and \<^verbatim>\<open>long\<close> values are modelled by \<^typ>\<open>int\<close>; none of the properties
  below depends on arithmetic overflow.
\<close>

definition ALL_FLAG :: int where
  "ALL_FLAG = 999"

definition MAX_SHIELDS :: int where
  "MAX_SHIELDS = 16"

definition MAX_STEPPERS :: int where
  "MAX_STEPPERS = 16"

definition MAX_WHISKERS :: int where
  "MAX_WHISKERS = 16"

definition MAX_STEPS :: int where
  "MAX_STEPS = 200"

definition STEPS_PER_REVOLUTION :: int where
  "STEPS_PER_REVOLUTION = 400"

definition default_prot :: int where
  "default_prot = 133"

definition default_ret :: int where
  "default_ret = 22"

definition default_speed :: int where
  "default_speed = 1500"

definition default_accel :: int where
  "default_accel = 500"

definition limit_pins :: "int list" where
  "limit_pins = [22, 24, 26, 28, 30, 32, 34, 36, 38, 40, 42, 44, 46, 48, 50, 52]"

definition motorShield_addresses :: "int list" where
  "motorShield_addresses =
     [0x60, 0x61, 0x62, 0x63, 0x64, 0x65, 0x66, 0x67, 0x68, 0x69, 0x6A, 0x6B, 0x6C, 0x6D,
      0x6E, 0x6F, 0x70, 0x71, 0x72, 0x73, 0x74, 0x75, 0x76, 0x77, 0x78, 0x79, 0x7A, 0x7B,
      0x7C, 0x7D, 0x7E, 0x7F]"

text \<open>
  \<^verbatim>\<open>sizeof(char *)\<close> on the AVR target of the firmware, and the two array sizes of the
  command reader: \<^verbatim>\<open>char *argument_words[8]\<close> and \<^verbatim>\<open>char user_command_buffer[64]\<close>.
\<close>

definition sizeof_char_ptr :: nat where
  "sizeof_char_ptr = 2"

definition ARGUMENT_WORDS_LEN :: nat where
  "ARGUMENT_WORDS_LEN = 8"

definition sizeof_argument_words :: nat where
  "sizeof_argument_words = ARGUMENT_WORDS_LEN * sizeof_char_ptr"

definition USER_COMMAND_BUFFER_LEN :: nat where
  "USER_COMMAND_BUFFER_LEN = 64"

section \<open>The motion-primitive library\<close>

text \<open>
  Modelled from the spec: the AccelStepper object behind \<^verbatim>\<open>accel_steppers[i]\<close> belongs to
  an external library whose code is not in the repository. Section 4.2 of the
  specification gives its contract: a current position, one pending target,
  \<^verbatim>\<open>move_to\<close>, \<^verbatim>\<open>distance_to_go\<close>, \<^verbatim>\<open>current_position\<close>, \<^verbatim>\<open>set_current_position\<close>,
  \<^verbatim>\<open>stop\<close>, \<^verbatim>\<open>set_max_speed\<close>, \<^verbatim>\<open>set_acceleration\<close>, and a planner that takes zero or
  one step towards the target per invocation. The planner's timing and speed are not
  modelled: whether an invocation of \<^verbatim>\<open>run\<close> takes its step, and how many steps \<^verbatim>\<open>stop\<close>
  leaves for the deceleration, are inputs of the model.
\<close>

record accel_stepper =
  currentPos :: int
  targetPos :: int
  maxSpeed :: int
  acceleration :: int

text \<open>
  A new object is at position 0 with target 0. The firmware sets both kinematic limits
  right after the construction, so what they are before that is never read.
\<close>

definition new_AccelStepper :: accel_stepper where
  "new_AccelStepper = \<lparr>currentPos = 0, targetPos = 0, maxSpeed = 0, acceleration = 0\<rparr>"

definition moveTo :: "int \<Rightarrow> accel_stepper \<Rightarrow> accel_stepper" where
  "moveTo absolute m = m\<lparr>targetPos := absolute\<rparr>"

definition distanceToGo :: "accel_stepper \<Rightarrow> int" where
  "distanceToGo m = targetPos m - currentPos m"

definition currentPosition :: "accel_stepper \<Rightarrow> int" where
  "currentPosition m = currentPos m"

definition setCurrentPosition :: "int \<Rightarrow> accel_stepper \<Rightarrow> accel_stepper" where
  "setCurrentPosition position m = m\<lparr>currentPos := position, targetPos := position\<rparr>"

definition setMaxSpeed :: "int \<Rightarrow> accel_stepper \<Rightarrow> accel_stepper" where
  "setMaxSpeed speed m = m\<lparr>maxSpeed := speed\<rparr>"

definition setAcceleration :: "int \<Rightarrow> accel_stepper \<Rightarrow> accel_stepper" where
  "setAcceleration a m = m\<lparr>acceleration := a\<rparr>"

text \<open>
  \<^verbatim>\<open>stop\<close> gives up the pending target: the new target is the current position plus the
  signed number of steps \<open>brake\<close> the planner needs to come to rest.
\<close>

definition stop :: "int \<Rightarrow> accel_stepper \<Rightarrow> accel_stepper" where
  "stop brake m = m\<lparr>targetPos := currentPos m + brake\<rparr>"

text \<open>
  \<^verbatim>\<open>run\<close> takes at most one step, towards the target, when a step is due; it reports the
  step callback it invoked (the forward one moves the position up).
\<close>

datatype direction = FORWARD | BACKWARD

definition run :: "bool \<Rightarrow> accel_stepper \<Rightarrow> accel_stepper \<times> direction option" where
  "run due m =
     (if due \<and> distanceToGo m \<noteq> 0 then
        (if 0 < distanceToGo m then (m\<lparr>currentPos := currentPos m + 1\<rparr>, Some FORWARD)
         else (m\<lparr>currentPos := currentPos m - 1\<rparr>, Some BACKWARD))
      else (m, None))"

section \<open>Hardware calls and serial output\<close>

datatype style = SINGLE | INTERLEAVE

text \<open>
  The calls the firmware makes on the motor hardware, in the order it makes them:
  \<^verbatim>\<open>accel_steppers[i]->moveTo(t)\<close>, \<^verbatim>\<open>accel_steppers[i]->stop()\<close>,
  \<^verbatim>\<open>steppers[i]->onestep(dir, style)\<close> and \<^verbatim>\<open>delay(ms)\<close>.
\<close>

datatype call =
    MoveTo nat int
  | Stop nat
  | OneStep nat direction style
  | Delay int

text \<open>
  What the firmware hands to \<^verbatim>\<open>Serial\<close>: \<^verbatim>\<open>Serial.print(long)\<close>, \<^verbatim>\<open>Serial.print(char)\<close>
  and \<^verbatim>\<open>Serial.println()\<close>.
\<close>

datatype out = PrintLong int | PrintChar char | Println

section \<open>The global state\<close>

record shield =
  address :: int

record motor =
  on_shield :: nat
  steps_per_rev :: int
  port :: int

text \<open>
  A C array is a function on indices; every access below is guarded by the declared
  size of the array. A pointer is an \<open>option\<close>: \<open>None\<close> is the null pointer a global
  pointer array starts with. An entry of \<^verbatim>\<open>argument_words\<close> points into
  \<^verbatim>\<open>user_command_buffer\<close> and is modelled by its offset there. \<open>setup_complete\<close> is
  the local variable of \<^verbatim>\<open>setup()\<close>. \<open>serial_out\<close> and \<open>motor_calls\<close> record the output
  written and the hardware calls made so far.
\<close>

record state =
  prot_steps :: "nat \<Rightarrow> int"
  ret_steps :: "nat \<Rightarrow> int"
  is_left :: "nat \<Rightarrow> int"
  whisker_col_id :: "nat \<Rightarrow> int"
  whisking_status :: "nat \<Rightarrow> int"
  num_shields :: int
  num_steppers :: int
  num_whiskers :: int
  motor_shields :: "nat \<Rightarrow> shield option"
  steppers :: "nat \<Rightarrow> motor option"
  accel_steppers :: "nat \<Rightarrow> accel_stepper option"
  output_buffer :: "nat \<Rightarrow> int"
  buff_idx :: int
  sampling :: int
  sampling_period :: int
  stepper_id :: int
  argument_words :: "nat \<Rightarrow> nat option"
  user_command_buffer :: "nat \<Rightarrow> char"
  user_command_buffer_index :: nat
  setup_complete :: int
  serial_out :: "out list"
  motor_calls :: "call list"

text \<open>
  The initial values of the globals. \<^verbatim>\<open>long prot_steps[MAX_STEPPERS] = { default_prot }\<close>
  initialises element 0 and zeroes the rest; globals without an initialiser are zero.
\<close>

definition init_state :: state where
  "init_state =
     \<lparr>prot_steps = (\<lambda>i. 0)(0 := default_prot),
      ret_steps = (\<lambda>i. 0)(0 := default_ret),
      is_left = (\<lambda>i. 0),
      whisker_col_id = (\<lambda>i. 0),
      whisking_status = (\<lambda>i. 0),
      num_shields = 0,
      num_steppers = 0,
      num_whiskers = 0,
      motor_shields = (\<lambda>i. None),
      steppers = (\<lambda>i. None),
      accel_steppers = (\<lambda>i. None),
      output_buffer = (\<lambda>i. 0),
      buff_idx = 0,
      sampling = 0,
      sampling_period = 20000,
      stepper_id = 0,
      argument_words = (\<lambda>i. None),
      user_command_buffer = (\<lambda>i. CHR 0x00),
      user_command_buffer_index = 0,
      setup_complete = 0,
      serial_out = [],
      motor_calls = []\<rparr>"

section \<open>Outcomes\<close>

text \<open>
  Undefined behaviour of the C program is a value of the model: an access outside an
  array or through a null pointer, and a conversion by \<^verbatim>\<open>atoi\<close> of a number that does not
  fit an \<^verbatim>\<open>int\<close>, end the run with \<open>Undefined\<close>, which keeps a state reached before it.
  \<open>Blocked\<close> is a call that never returns.
\<close>

datatype fault = NullPointer | OutOfBounds | IntOverflow

datatype outcome = Done state | Undefined fault state | Blocked

definition and_then :: "outcome \<Rightarrow> (state \<Rightarrow> outcome) \<Rightarrow> outcome" where
  "and_then r f = (case r of Done s \<Rightarrow> f s | Undefined e s \<Rightarrow> Undefined e s | Blocked \<Rightarrow> Blocked)"

definition in_array :: "int \<Rightarrow> int \<Rightarrow> bool" where
  "in_array n i \<longleftrightarrow> 0 \<le> i \<and> i < n"

text \<open>\<^verbatim>\<open>for (int i = i0; i < n; i++) body\<close>; no loop body of the firmware changes its bound.\<close>

function for_loop :: "int \<Rightarrow> int \<Rightarrow> (int \<Rightarrow> state \<Rightarrow> outcome) \<Rightarrow> state \<Rightarrow> outcome" where
  "for_loop i n body s =
     (if i < n then and_then (body i s) (for_loop (i + 1) n body) else Done s)"
  by pat_completeness auto
termination
  by (relation "measure (\<lambda>(i, n, body, s). nat (n - i))") auto

declare for_loop.simps [simp del]

section \<open>Array and pointer accesses\<close>

definition log_call :: "call \<Rightarrow> state \<Rightarrow> state" where
  "log_call c s = s\<lparr>motor_calls := motor_calls s @ [c]\<rparr>"

text \<open>\<^verbatim>\<open>accel_steppers[i]->f(...)\<close>: the array access, the null check, the library's effect.\<close>

definition on_accel :: "int \<Rightarrow> (accel_stepper \<Rightarrow> accel_stepper) \<Rightarrow> state \<Rightarrow> outcome" where
  "on_accel i f s =
     (if in_array MAX_STEPPERS i then
        (case accel_steppers s (nat i) of
           None \<Rightarrow> Undefined NullPointer s
         | Some m \<Rightarrow> Done (s\<lparr>accel_steppers := (accel_steppers s)(nat i \<mapsto> f m)\<rparr>))
      else Undefined OutOfBounds s)"

text \<open>\<^verbatim>\<open>steppers[i]->onestep(dir, style)\<close>.\<close>

definition onestep :: "int \<Rightarrow> direction \<Rightarrow> style \<Rightarrow> state \<Rightarrow> outcome" where
  "onestep i dir sty s =
     (if in_array MAX_STEPPERS i then
        (case steppers s (nat i) of
           None \<Rightarrow> Undefined NullPointer s
         | Some m \<Rightarrow> Done (log_call (OneStep (nat i) dir sty) s))
      else Undefined OutOfBounds s)"

text \<open>\<^verbatim>\<open>accel_steppers[i]->moveTo(target)\<close> and \<^verbatim>\<open>accel_steppers[i]->stop()\<close>, recorded as calls.\<close>

definition accel_moveTo :: "int \<Rightarrow> int \<Rightarrow> state \<Rightarrow> outcome" where
  "accel_moveTo i target s =
     and_then (on_accel i (moveTo target) s) (\<lambda>t. Done (log_call (MoveTo (nat i) target) t))"

definition accel_stop :: "(nat \<Rightarrow> int) \<Rightarrow> int \<Rightarrow> state \<Rightarrow> outcome" where
  "accel_stop brake i s =
     and_then (on_accel i (stop (brake (nat i))) s) (\<lambda>t. Done (log_call (Stop (nat i)) t))"

section \<open>The run-time commands\<close>

text \<open>
  Each command of \<^verbatim>\<open>loop()\<close> has the same statements in its broadcast loop and in its
  single-axis branch; \<open>*_axis\<close> is that body for the axis \<open>i\<close>.
\<close>

definition set_prot_axis :: "int \<Rightarrow> int \<Rightarrow> state \<Rightarrow> outcome" where
  "set_prot_axis steps i s =
     (if in_array MAX_STEPPERS i then Done (s\<lparr>prot_steps := (prot_steps s)(nat i := steps)\<rparr>)
      else Undefined OutOfBounds s)"

definition set_prot :: "int \<Rightarrow> int \<Rightarrow> state \<Rightarrow> outcome" where
  "set_prot sid steps s =
     (if steps < MAX_STEPS \<and> steps > 1 then
        (if sid = ALL_FLAG then for_loop 0 (num_steppers s) (set_prot_axis steps) s
         else set_prot_axis steps sid s)
      else Done s)"

definition set_ret_axis :: "int \<Rightarrow> int \<Rightarrow> state \<Rightarrow> outcome" where
  "set_ret_axis steps i s =
     (if in_array MAX_STEPPERS i then Done (s\<lparr>ret_steps := (ret_steps s)(nat i := steps)\<rparr>)
      else Undefined OutOfBounds s)"

definition set_ret :: "int \<Rightarrow> int \<Rightarrow> state \<Rightarrow> outcome" where
  "set_ret sid steps s =
     (if steps < MAX_STEPS \<and> steps > 1 then
        (if sid = ALL_FLAG then for_loop 0 (num_steppers s) (set_ret_axis steps) s
         else set_ret_axis steps sid s)
      else Done s)"

definition set_speed_axis :: "int \<Rightarrow> int \<Rightarrow> state \<Rightarrow> outcome" where
  "set_speed_axis speed i s = on_accel i (setMaxSpeed speed) s"

definition set_speed :: "int \<Rightarrow> int \<Rightarrow> state \<Rightarrow> outcome" where
  "set_speed sid speed s =
     (if sid = ALL_FLAG then for_loop 0 (num_steppers s) (set_speed_axis speed) s
      else set_speed_axis speed sid s)"

definition set_accel_axis :: "int \<Rightarrow> int \<Rightarrow> state \<Rightarrow> outcome" where
  "set_accel_axis accel i s = on_accel i (setAcceleration accel) s"

definition set_accel :: "int \<Rightarrow> int \<Rightarrow> state \<Rightarrow> outcome" where
  "set_accel sid accel s =
     (if sid = ALL_FLAG then for_loop 0 (num_steppers s) (set_accel_axis accel) s
      else set_accel_axis accel sid s)"

text \<open>\<^verbatim>\<open>whisking_status[i] = 2; accel_steppers[i]->moveTo(prot_steps[i]);\<close>\<close>

definition whisk_axis :: "int \<Rightarrow> state \<Rightarrow> outcome" where
  "whisk_axis i s =
     (if in_array MAX_STEPPERS i then
        accel_moveTo i (prot_steps s (nat i)) (s\<lparr>whisking_status := (whisking_status s)(nat i := 2)\<rparr>)
      else Undefined OutOfBounds s)"

definition whisk :: "int \<Rightarrow> state \<Rightarrow> outcome" where
  "whisk sid s =
     (if sid = ALL_FLAG then for_loop 0 (num_steppers s) whisk_axis s
      else whisk_axis sid s)"

text \<open>
  \<^verbatim>\<open>home_stepper(stepper_id)\<close>. \<open>high k\<close> tells whether the \<open>k\<close>-th read of the axis's
  limit pin returns \<^verbatim>\<open>HIGH\<close> (not triggered). The loop has no bound: \<open>None\<close> is a run
  that never leaves it.
\<close>

partial_function (option) home_loop :: "(nat \<Rightarrow> bool) \<Rightarrow> int \<Rightarrow> nat \<Rightarrow> state \<Rightarrow> outcome option" where
  "home_loop high i k s =
     (if high k then
        (case onestep i (if is_left s (nat i) \<noteq> 0 then FORWARD else BACKWARD) SINGLE s of
           Done t \<Rightarrow> home_loop high i (Suc k) (log_call (Delay 25) t)
         | Undefined e t \<Rightarrow> Some (Undefined e t)
         | Blocked \<Rightarrow> Some Blocked)
      else Some (Done s))"

declare home_loop.simps [code]

definition home_stepper :: "(int \<Rightarrow> nat \<Rightarrow> bool) \<Rightarrow> int \<Rightarrow> state \<Rightarrow> outcome" where
  "home_stepper digitalRead i s =
     (if in_array (int (length limit_pins)) i then
        (case home_loop (digitalRead (limit_pins ! nat i)) i 0 s of
           None \<Rightarrow> Blocked
         | Some r \<Rightarrow> and_then r (on_accel i (setCurrentPosition 0)))
      else Undefined OutOfBounds s)"

definition home_stepper_cmd :: "(int \<Rightarrow> nat \<Rightarrow> bool) \<Rightarrow> int \<Rightarrow> state \<Rightarrow> outcome" where
  "home_stepper_cmd digitalRead sid s =
     (if sid = ALL_FLAG then for_loop 0 (num_steppers s) (home_stepper digitalRead) s
      else home_stepper digitalRead sid s)"

text \<open>\<^verbatim>\<open>accel_steppers[i]->stop(); whisking_status[i] = 1;\<close>\<close>

definition halt_whisk_axis :: "(nat \<Rightarrow> int) \<Rightarrow> int \<Rightarrow> state \<Rightarrow> outcome" where
  "halt_whisk_axis brake i s =
     and_then (accel_stop brake i s)
       (\<lambda>t. Done (t\<lparr>whisking_status := (whisking_status t)(nat i := 1)\<rparr>))"

definition halt_whisk :: "(nat \<Rightarrow> int) \<Rightarrow> int \<Rightarrow> state \<Rightarrow> outcome" where
  "halt_whisk brake sid s =
     (if sid = ALL_FLAG then for_loop 0 (num_steppers s) (halt_whisk_axis brake) s
      else halt_whisk_axis brake sid s)"

text \<open>\<^verbatim>\<open>accel_steppers[i]->moveTo(ret_steps[i]); whisking_status[i] = 1;\<close>\<close>

definition retract_axis :: "int \<Rightarrow> state \<Rightarrow> outcome" where
  "retract_axis i s =
     and_then (accel_moveTo i (ret_steps s (nat i)) s)
       (\<lambda>t. Done (t\<lparr>whisking_status := (whisking_status t)(nat i := 1)\<rparr>))"

definition retract :: "int \<Rightarrow> state \<Rightarrow> outcome" where
  "retract sid s =
     (if sid = ALL_FLAG then for_loop 0 (num_steppers s) retract_axis s
      else retract_axis sid s)"

definition set_sampling :: "int \<Rightarrow> state \<Rightarrow> outcome" where
  "set_sampling v s = Done (s\<lparr>sampling := v\<rparr>)"

section \<open>The command reader\<close>

definition NUL :: char where
  "NUL = CHR 0x00"

text \<open>\<^verbatim>\<open>*line == ',' || *line == ' ' || *line == '\t' || *line == '\n'\<close>\<close>

definition is_separator :: "char \<Rightarrow> bool" where
  "is_separator ch \<longleftrightarrow> ch = CHR '','' \<or> ch = CHR '' '' \<or> ch = CHR 0x09 \<or> ch = CHR 0x0A"

text \<open>
  \<^verbatim>\<open>parse\<close> walks \<^verbatim>\<open>user_command_buffer\<close>; \<open>p\<close> is the offset of \<^verbatim>\<open>line\<close> in it. The inner
  loop \<^verbatim>\<open>while (separator) *line++ = '\0'\<close>:
\<close>

function skip_separators :: "(nat \<Rightarrow> char) \<Rightarrow> nat \<Rightarrow> fault + (nat \<Rightarrow> char) \<times> nat" where
  "skip_separators buf p =
     (if USER_COMMAND_BUFFER_LEN \<le> p then Inl OutOfBounds
      else if is_separator (buf p) then skip_separators (buf(p := NUL)) (Suc p)
      else Inr (buf, p))"
  by pat_completeness auto
termination
  by (relation "measure (\<lambda>(buf, p). USER_COMMAND_BUFFER_LEN - p)") auto

declare skip_separators.simps [simp del]

text \<open>The inner loop \<^verbatim>\<open>while (*line != '\0' && not a separator) line++\<close>:\<close>

function skip_argument :: "(nat \<Rightarrow> char) \<Rightarrow> nat \<Rightarrow> fault + nat" where
  "skip_argument buf p =
     (if USER_COMMAND_BUFFER_LEN \<le> p then Inl OutOfBounds
      else if buf p \<noteq> NUL \<and> \<not> is_separator (buf p) then skip_argument buf (Suc p)
      else Inr p)"
  by pat_completeness auto
termination
  by (relation "measure (\<lambda>(buf, p). USER_COMMAND_BUFFER_LEN - p)") auto

declare skip_argument.simps [simp del]

lemma skip_separators_advances:
  "skip_separators buf p = Inr (buf', p') \<Longrightarrow>
     p \<le> p' \<and> (is_separator (buf p) \<longrightarrow> p < p') \<and> (\<not> is_separator (buf p) \<longrightarrow> buf' = buf)"
proof (induction buf p rule: skip_separators.induct)
  case (1 buf p)
  show ?case
  proof (cases "\<not> USER_COMMAND_BUFFER_LEN \<le> p \<and> is_separator (buf p)")
    case True
    then have a: "\<not> USER_COMMAND_BUFFER_LEN \<le> p" and b: "is_separator (buf p)"
      by simp_all
    have "skip_separators (buf(p := NUL)) (Suc p) = Inr (buf', p')"
      using "1.prems" a b by (subst (asm) skip_separators.simps) simp
    from "1.IH" [OF a b this] have "Suc p \<le> p'"
      by (rule conjunct1)
    then show ?thesis using b by simp
  next
    case False
    then show ?thesis
      using "1.prems" by (subst (asm) skip_separators.simps) (auto split: if_splits)
  qed
qed

lemma skip_argument_advances:
  "skip_argument buf p = Inr p' \<Longrightarrow>
     p \<le> p' \<and> (buf p \<noteq> NUL \<and> \<not> is_separator (buf p) \<longrightarrow> p < p')"
proof (induction buf p rule: skip_argument.induct)
  case (1 buf p)
  show ?case
  proof (cases "\<not> USER_COMMAND_BUFFER_LEN \<le> p \<and> buf p \<noteq> NUL \<and> \<not> is_separator (buf p)")
    case True
    then have a: "\<not> USER_COMMAND_BUFFER_LEN \<le> p" and b: "buf p \<noteq> NUL \<and> \<not> is_separator (buf p)"
      by simp_all
    have "skip_argument buf (Suc p) = Inr p'"
      using "1.prems" a b by (subst (asm) skip_argument.simps) simp
    from "1.IH" [OF a b this] have "Suc p \<le> p'"
      by (rule conjunct1)
    then show ?thesis by simp
  next
    case False
    then show ?thesis
      using "1.prems" by (subst (asm) skip_argument.simps) (auto split: if_splits)
  qed
qed

text \<open>
  The outer loop of \<^verbatim>\<open>parse\<close>. \<open>ws\<close> are the entries stored through \<^verbatim>\<open>argument_words\<close> so
  far, so \<^verbatim>\<open>argCount\<close> (a \<^verbatim>\<open>uint8_t\<close>) is their number modulo 256. The comparison
  \<^verbatim>\<open>argCount == maxArgs - 1\<close> is made on \<^verbatim>\<open>int\<close>.
\<close>

function parse_loop ::
  "nat \<Rightarrow> (nat \<Rightarrow> char) \<Rightarrow> nat \<Rightarrow> nat option list \<Rightarrow> fault + (nat \<Rightarrow> char) \<times> nat option list" where
  "parse_loop maxArgs buf p ws =
     (if USER_COMMAND_BUFFER_LEN \<le> p then Inl OutOfBounds
      else if buf p = NUL then Inr (buf, ws)
      else
        (case skip_separators buf p of
           Inl e \<Rightarrow> Inl e
         | Inr (buf', p') \<Rightarrow>
             (if int (Suc (length ws) mod 256) = int maxArgs - 1 then Inr (buf', ws @ [Some p'])
              else
                (case skip_argument buf' p' of
                   Inl e \<Rightarrow> Inl e
                 | Inr p'' \<Rightarrow> parse_loop maxArgs buf' p'' (ws @ [Some p'])))))"
  by pat_completeness auto
termination
proof (relation "measure (\<lambda>(maxArgs, buf, p, ws). USER_COMMAND_BUFFER_LEN - p)")
  show "wf (measure (\<lambda>(maxArgs, buf, p, ws). USER_COMMAND_BUFFER_LEN - p))"
    by simp
next
  fix maxArgs :: nat and buf :: "nat \<Rightarrow> char" and p :: nat and ws :: "nat option list"
    and x2 :: "(nat \<Rightarrow> char) \<times> nat" and buf' :: "nat \<Rightarrow> char" and p' p'' :: nat
  assume inb: "\<not> USER_COMMAND_BUFFER_LEN \<le> p" and nz: "buf p \<noteq> NUL"
    and sep: "skip_separators buf p = Inr x2" and x2: "(buf', p') = x2"
    and arg: "skip_argument buf' p' = Inr p''"
  from sep x2 have s: "skip_separators buf p = Inr (buf', p')"
    by simp
  have "p < p''"
  proof (cases "is_separator (buf p)")
    case True
    then show ?thesis
      using skip_separators_advances [OF s] skip_argument_advances [OF arg] by simp
  next
    case False
    then have "buf' = buf" and "p \<le> p'"
      using skip_separators_advances [OF s] by simp_all
    moreover have "p' \<le> p''"
      using skip_argument_advances [OF arg] by simp
    ultimately show ?thesis
      using skip_argument_advances [OF arg] nz False
      by (cases "p = p'") auto
  qed
  then show "((maxArgs, buf', p'', ws @ [Some p']), (maxArgs, buf, p, ws))
      \<in> measure (\<lambda>(maxArgs, buf, p, ws). USER_COMMAND_BUFFER_LEN - p)"
    using inb by simp
qed

declare parse_loop.simps [simp del]

text \<open>
  \<^verbatim>\<open>parse(line, argument_words, maxArgs)\<close>: the buffer it leaves and the entries it stores
  through \<^verbatim>\<open>argument_words\<close>, the last one being \<^verbatim>\<open>*argument_words = '\0'\<close>.
\<close>

definition parse :: "nat \<Rightarrow> (nat \<Rightarrow> char) \<Rightarrow> fault + (nat \<Rightarrow> char) \<times> nat option list" where
  "parse maxArgs line =
     (case parse_loop maxArgs line 0 [] of
        Inl e \<Rightarrow> Inl e
      | Inr (buf, ws) \<Rightarrow> Inr (buf, ws @ [None]))"

text \<open>
  The entries land in \<^verbatim>\<open>char *argument_words[8]\<close>, entry \<open>k\<close> at index \<open>k\<close>; an entry past
  the array is a write out of bounds.
\<close>

definition store_words :: "nat option list \<Rightarrow> (nat \<Rightarrow> nat option) \<Rightarrow> fault + (nat \<Rightarrow> nat option)" where
  "store_words ws tab =
     (if length ws \<le> ARGUMENT_WORDS_LEN then Inr (\<lambda>k. if k < length ws then ws ! k else tab k)
      else Inl OutOfBounds)"

text \<open>The C string at offset \<open>p\<close> of the buffer.\<close>

function c_string :: "(nat \<Rightarrow> char) \<Rightarrow> nat \<Rightarrow> fault + string" where
  "c_string buf p =
     (if USER_COMMAND_BUFFER_LEN \<le> p then Inl OutOfBounds
      else if buf p = NUL then Inr []
      else (case c_string buf (Suc p) of Inl e \<Rightarrow> Inl e | Inr cs \<Rightarrow> Inr (buf p # cs)))"
  by pat_completeness auto
termination
  by (relation "measure (\<lambda>(buf, p). USER_COMMAND_BUFFER_LEN - p)") auto

declare c_string.simps [simp del]

text \<open>The string \<^verbatim>\<open>argument_words[k]\<close> points to, for the constant indices the firmware uses.\<close>

definition word_at :: "state \<Rightarrow> nat \<Rightarrow> fault + string" where
  "word_at s k =
     (case argument_words s k of
        None \<Rightarrow> Inl NullPointer
      | Some p \<Rightarrow> c_string (user_command_buffer s) p)"

text \<open>
  \<^verbatim>\<open>atoi\<close> of the C library: optional white space, an optional sign, decimal digits. A
  value outside the range of \<^verbatim>\<open>int\<close> (16 bits on the target) is undefined in C.
\<close>

definition is_space :: "char \<Rightarrow> bool" where
  "is_space ch \<longleftrightarrow> ch = CHR '' '' \<or> (9 \<le> (of_char ch :: nat) \<and> (of_char ch :: nat) \<le> 13)"

definition is_digit :: "char \<Rightarrow> bool" where
  "is_digit ch \<longleftrightarrow> 48 \<le> (of_char ch :: nat) \<and> (of_char ch :: nat) \<le> 57"

fun digits_value :: "string \<Rightarrow> int \<Rightarrow> int" where
  "digits_value [] acc = acc"
| "digits_value (ch # cs) acc =
     (if is_digit ch then digits_value cs (10 * acc + (of_char ch - 48)) else acc)"

definition atoi :: "string \<Rightarrow> fault + int" where
  "atoi str =
     (let cs = dropWhile is_space str;
          v = (case cs of
                 [] \<Rightarrow> 0
               | ch # ds \<Rightarrow>
                   if ch = CHR ''-'' then - digits_value ds 0
                   else if ch = CHR ''+'' then digits_value ds 0
                   else digits_value cs 0)
      in if - 32768 \<le> v \<and> v \<le> 32767 then Inr v else Inl IntOverflow)"

text \<open>\<open>with_arg k s f\<close> is \<open>f\<close> on \<^verbatim>\<open>atoi(argument_words[k])\<close>.\<close>

definition with_arg :: "nat \<Rightarrow> state \<Rightarrow> (int \<Rightarrow> outcome) \<Rightarrow> outcome" where
  "with_arg k s f =
     (case word_at s k of
        Inl e \<Rightarrow> Undefined e s
      | Inr str \<Rightarrow> (case atoi str of Inl e \<Rightarrow> Undefined e s | Inr v \<Rightarrow> f v))"

text \<open>
  What surrounds the firmware during one pass of \<^verbatim>\<open>loop()\<close>: the bytes \<^verbatim>\<open>Serial\<close> delivers
  in that pass, what a read of a limit pin returns (\<open>digitalRead pin k\<close>: the \<open>k\<close>-th
  read during one homing is \<^verbatim>\<open>HIGH\<close>), the deceleration distance \<^verbatim>\<open>stop()\<close> chooses for an
  axis, and whether \<^verbatim>\<open>run()\<close> finds a step due for an axis.
\<close>

record world =
  rx :: string
  digitalRead :: "int \<Rightarrow> nat \<Rightarrow> bool"
  brake :: "nat \<Rightarrow> int"
  step_due :: "nat \<Rightarrow> bool"

text \<open>The chain of \<^verbatim>\<open>strcmp(argument_words[0], ...)\<close> tests of \<^verbatim>\<open>loop()\<close>.\<close>

definition dispatch :: "world \<Rightarrow> state \<Rightarrow> outcome" where
  "dispatch w s =
     (case word_at s 0 of
        Inl e \<Rightarrow> Undefined e s
      | Inr cmd \<Rightarrow>
          if cmd = ''set_prot'' then
            with_arg 1 s (\<lambda>sid. with_arg 2 s (\<lambda>steps. set_prot sid steps s))
          else if cmd = ''set_ret'' then
            with_arg 1 s (\<lambda>sid. with_arg 2 s (\<lambda>steps. set_ret sid steps s))
          else if cmd = ''set_speed'' then
            with_arg 1 s (\<lambda>sid. with_arg 2 s (\<lambda>speed. set_speed sid speed s))
          else if cmd = ''set_accel'' then
            with_arg 1 s (\<lambda>sid. with_arg 2 s (\<lambda>accel. set_accel sid accel s))
          else if cmd = ''whisk'' then
            with_arg 1 s (\<lambda>sid. whisk sid s)
          else if cmd = ''set_sampling'' then
            with_arg 1 s (\<lambda>v. set_sampling v s)
          else if cmd = ''home_stepper'' then
            with_arg 1 s (\<lambda>sid. home_stepper_cmd (digitalRead w) sid s)
          else if cmd = ''halt_whisk'' then
            with_arg 1 s (\<lambda>sid. halt_whisk (brake w) sid s)
          else if cmd = ''retract'' then
            with_arg 1 s (\<lambda>sid. retract sid s)
          else Done s)"

text \<open>
  One received byte, as both \<^verbatim>\<open>setup()\<close> and \<^verbatim>\<open>loop()\<close> treat it; \<open>disp\<close> is the command
  chain of the caller. \<^verbatim>\<open>parse\<close> gets \<^verbatim>\<open>sizeof(argument_words)\<close> for its \<^verbatim>\<open>uint8_t maxArgs\<close>.
\<close>

definition receive :: "(state \<Rightarrow> outcome) \<Rightarrow> char \<Rightarrow> state \<Rightarrow> outcome" where
  "receive disp ch s =
     (if ch = CHR 0x0D then
        (if user_command_buffer_index s < USER_COMMAND_BUFFER_LEN then
           (let s1 = s\<lparr>user_command_buffer :=
                       (user_command_buffer s)(user_command_buffer_index s := NUL)\<rparr>
            in case parse (sizeof_argument_words mod 256) (user_command_buffer s1) of
                 Inl e \<Rightarrow> Undefined e s1
               | Inr (buf, ws) \<Rightarrow>
                   (case store_words ws (argument_words s1) of
                      Inl e \<Rightarrow> Undefined e s1
                    | Inr tab \<Rightarrow>
                        and_then (disp (s1\<lparr>user_command_buffer := buf, argument_words := tab\<rparr>))
                          (\<lambda>t. Done (t\<lparr>user_command_buffer_index := 0\<rparr>))))
         else Undefined OutOfBounds s)
      else if (ch = CHR 0x08 \<or> ch = CHR 0x7F) \<and> 0 < user_command_buffer_index s then
        Done (s\<lparr>user_command_buffer_index := user_command_buffer_index s - 1\<rparr>)
      else if 32 \<le> (of_char ch :: nat) \<and>
              user_command_buffer_index s < USER_COMMAND_BUFFER_LEN - 1 then
        Done (s\<lparr>user_command_buffer :=
                   (user_command_buffer s)(user_command_buffer_index s := ch),
                 user_command_buffer_index := Suc (user_command_buffer_index s)\<rparr>)
      else Done s)"

text \<open>\<^verbatim>\<open>while (Serial.available() > 0) { c = Serial.read(); ... }\<close> over the bytes delivered.\<close>

fun receive_all :: "(state \<Rightarrow> outcome) \<Rightarrow> string \<Rightarrow> state \<Rightarrow> outcome" where
  "receive_all disp [] s = Done s"
| "receive_all disp (ch # cs) s = and_then (receive disp ch s) (receive_all disp cs)"

section \<open>The main cycle\<close>

text \<open>\<^verbatim>\<open>accel_steppers[i]->run()\<close>; a step is taken through \<^verbatim>\<open>forwardStep\<close>\<open>i\<close> or \<^verbatim>\<open>backwardStep\<close>\<open>i\<close>.\<close>

definition run_axis :: "bool \<Rightarrow> int \<Rightarrow> state \<Rightarrow> outcome" where
  "run_axis due i s =
     (if in_array MAX_STEPPERS i then
        (case accel_steppers s (nat i) of
           None \<Rightarrow> Undefined NullPointer s
         | Some m \<Rightarrow>
             (case run due m of
                (m', None) \<Rightarrow> Done (s\<lparr>accel_steppers := (accel_steppers s)(nat i \<mapsto> m')\<rparr>)
              | (m', Some dir) \<Rightarrow>
                  onestep i dir INTERLEAVE (s\<lparr>accel_steppers := (accel_steppers s)(nat i \<mapsto> m')\<rparr>)))
      else Undefined OutOfBounds s)"

text \<open>The status check of the last loop of \<^verbatim>\<open>loop()\<close>, for the axis \<open>i\<close>.\<close>

definition check_status :: "int \<Rightarrow> state \<Rightarrow> outcome" where
  "check_status i s =
     (if in_array MAX_STEPPERS i then
        (if whisking_status s (nat i) \<noteq> 0 then
           (case accel_steppers s (nat i) of
              None \<Rightarrow> Undefined NullPointer s
            | Some m \<Rightarrow>
                if distanceToGo m = 0 then
                  (let s1 = s\<lparr>whisking_status :=
                              (whisking_status s)(nat i := whisking_status s (nat i) - 1)\<rparr>
                   in if whisking_status s1 (nat i) \<noteq> 0
                      then accel_moveTo i (ret_steps s1 (nat i)) s1
                      else Done s1)
                else Done s)
         else Done s)
      else Undefined OutOfBounds s)"

definition advance_axis :: "(nat \<Rightarrow> bool) \<Rightarrow> int \<Rightarrow> state \<Rightarrow> outcome" where
  "advance_axis due i s = and_then (check_status i s) (run_axis (due (nat i)) i)"

definition loop :: "world \<Rightarrow> state \<Rightarrow> outcome" where
  "loop w s =
     and_then (receive_all (dispatch w) (rx w) s)
       (\<lambda>t. for_loop 0 (num_steppers t) (advance_axis (step_due w)) t)"

section \<open>Bring-up\<close>

text \<open>C's \<^verbatim>\<open>/\<close> and \<^verbatim>\<open>%\<close> on \<^verbatim>\<open>int\<close> truncate towards zero.\<close>

definition c_div :: "int \<Rightarrow> int \<Rightarrow> int" where
  "c_div a b = sgn a * sgn b * (\<bar>a\<bar> div \<bar>b\<bar>)"

definition c_mod :: "int \<Rightarrow> int \<Rightarrow> int" where
  "c_mod a b = a - b * c_div a b"

text \<open>\<^verbatim>\<open>whisker_col_id[i] = num_steppers;\<close>\<close>

definition bind_whisker :: "int \<Rightarrow> state \<Rightarrow> outcome" where
  "bind_whisker i s =
     (if in_array MAX_WHISKERS i then
        Done (s\<lparr>whisker_col_id := (whisker_col_id s)(nat i := num_steppers s)\<rparr>)
      else Undefined OutOfBounds s)"

text \<open>
  One of the two blocks \<^verbatim>\<open>if (mten) { ... }\<close> and \<^verbatim>\<open>if (mone) { ... }\<close> of the command \<^verbatim>\<open>s\<close>:
  \<open>m\<close> is the digit of the motor port, \<open>w\<close> of the whisker count, \<open>sd\<close> of the side.
  \<^verbatim>\<open>getStepper\<close> belongs to the motor-shield library, which is not in the repository; it
  is taken to hand back a motor object for the port it is given.
\<close>

definition add_stepper :: "int \<Rightarrow> int \<Rightarrow> int \<Rightarrow> state \<Rightarrow> outcome" where
  "add_stepper m w sd s =
     (if m \<noteq> 0 then
        and_then
          (if w \<noteq> 0 then
             and_then (for_loop 0 w bind_whisker s)
               (\<lambda>t. Done (t\<lparr>num_whiskers := num_whiskers t + w\<rparr>))
           else Done s)
          (\<lambda>t. if in_array MAX_STEPPERS (num_steppers t) then
                 Done (t\<lparr>is_left := (is_left t)(nat (num_steppers t) := sd),
                          steppers := (steppers t)(nat (num_steppers t) \<mapsto>
                            \<lparr>on_shield = nat (num_shields t),
                             steps_per_rev = STEPS_PER_REVOLUTION, port = m\<rparr>),
                          num_steppers := num_steppers t + 1\<rparr>)
               else Undefined OutOfBounds t)
      else Done s)"

text \<open>The command \<^verbatim>\<open>s shieldAddr steppersToAdd whiskersPerStepper sideColumnIsOn\<close>.\<close>

definition add_shield :: "int \<Rightarrow> int \<Rightarrow> int \<Rightarrow> int \<Rightarrow> state \<Rightarrow> outcome" where
  "add_shield sidx midx numw side s =
     (let mone = c_mod midx 10; mten = c_mod (c_div midx 10) 10;
          wone = c_mod numw 10; wten = c_mod (c_div numw 10) 10;
          sone = c_mod side 10; sten = c_mod (c_div side 10) 10
      in if in_array (int (length motorShield_addresses)) sidx \<and>
            in_array MAX_SHIELDS (num_shields s) then
           and_then
             (add_stepper mten wten sten
                (s\<lparr>motor_shields := (motor_shields s)(nat (num_shields s) \<mapsto>
                      \<lparr>address = motorShield_addresses ! nat sidx\<rparr>)\<rparr>))
             (\<lambda>t. and_then (add_stepper mone wone sone t)
                (\<lambda>u. Done (u\<lparr>num_shields := num_shields u + 1\<rparr>)))
         else Undefined OutOfBounds s)"

text \<open>
  The chain of \<^verbatim>\<open>strcmp\<close> tests of \<^verbatim>\<open>setup()\<close>. \<^verbatim>\<open>sampling_period\<close> is an \<^verbatim>\<open>unsigned long\<close>.
\<close>

definition setup_dispatch :: "state \<Rightarrow> outcome" where
  "setup_dispatch s =
     (case word_at s 0 of
        Inl e \<Rightarrow> Undefined e s
      | Inr cmd \<Rightarrow>
          if cmd = ''s'' then
            with_arg 1 s (\<lambda>sidx. with_arg 2 s (\<lambda>midx. with_arg 3 s (\<lambda>numw.
              with_arg 4 s (\<lambda>side. add_shield sidx midx numw side s))))
          else if cmd = ''p'' then
            with_arg 1 s (\<lambda>v. Done (s\<lparr>sampling_period := v mod 2 ^ 32\<rparr>))
          else if cmd = ''c'' then
            Done (s\<lparr>setup_complete := 1\<rparr>)
          else Done s)"

text \<open>
  \<^verbatim>\<open>while (!setup_complete) { while (Serial.available() > 0) { ... } }\<close>: each element of
  \<open>bursts\<close> is the bytes one run of the inner loop reads. When no byte comes any more
  and the setup is not complete, the outer loop spins forever.
\<close>

fun setup_wait :: "string list \<Rightarrow> state \<Rightarrow> outcome" where
  "setup_wait [] s = (if setup_complete s \<noteq> 0 then Done s else Blocked)"
| "setup_wait (b # bs) s =
     (if setup_complete s \<noteq> 0 then Done s
      else and_then (receive_all setup_dispatch b s) (setup_wait bs))"

text \<open>\<^verbatim>\<open>pinMode(analogPins[i], INPUT)\<close> and \<^verbatim>\<open>pinMode(limit_pins[i], INPUT_PULLUP)\<close>.\<close>

definition pin_mode :: "int \<Rightarrow> int \<Rightarrow> state \<Rightarrow> outcome" where
  "pin_mode n i s = (if in_array n i then Done s else Undefined OutOfBounds s)"

definition new_accel :: "int \<Rightarrow> state \<Rightarrow> outcome" where
  "new_accel i s =
     (if in_array MAX_STEPPERS i then
        Done (s\<lparr>accel_steppers := (accel_steppers s)(nat i \<mapsto>
                 setAcceleration default_accel (setMaxSpeed default_speed new_AccelStepper))\<rparr>)
      else Undefined OutOfBounds s)"

definition initializeSteppers :: "state \<Rightarrow> outcome" where
  "initializeSteppers s = for_loop 0 (num_steppers s) new_accel s"

text \<open>
  \<^verbatim>\<open>setup()\<close>. The line under \<^verbatim>\<open>if (debug)\<close> is left out: \<^verbatim>\<open>debug\<close> is initialised to 0 and
  assigned nowhere. The timer that \<^verbatim>\<open>setup()\<close> starts at its end is not part of the
  state: when the handler of the next section fires is up to the surroundings.
\<close>

definition setup_ino :: "string list \<Rightarrow> state \<Rightarrow> outcome" where
  "setup_ino bursts s =
     and_then
       (setup_wait bursts
          (log_call (Delay 250) s
             \<lparr>serial_out := serial_out s @ [PrintChar CHR ''!'', Println],
              setup_complete := 0, num_whiskers := 0\<rparr>))
       (\<lambda>t. and_then (for_loop 0 (num_whiskers t) (pin_mode MAX_WHISKERS) t)
          (\<lambda>u. and_then (for_loop 0 (num_steppers u) (pin_mode (int (length limit_pins))) u)
             initializeSteppers))"

section \<open>The sampling interrupt\<close>

text \<open>The inner loop that prints \<^verbatim>\<open>output_buffer[0 .. buff_idx - 1]\<close>, and \<^verbatim>\<open>Serial.println()\<close>.\<close>

definition print_buffer :: "(nat \<Rightarrow> int) \<Rightarrow> nat \<Rightarrow> out list" where
  "print_buffer buf n =
     concat (map (\<lambda>j. [PrintLong (buf j), PrintChar CHR '' '']) [0..<n]) @ [Println]"

text \<open>
  The body of the loop of \<^verbatim>\<open>timerIsr\<close> for the whisker \<open>i\<close>. \<open>millis i\<close> is what \<^verbatim>\<open>millis()\<close>
  returns in that pass and \<open>analogRead i\<close> what \<^verbatim>\<open>analogRead(analogPins[i])\<close> returns.
\<close>

definition sample_whisker :: "(int \<Rightarrow> int) \<Rightarrow> (int \<Rightarrow> int) \<Rightarrow> int \<Rightarrow> state \<Rightarrow> outcome" where
  "sample_whisker millis analogRead i s =
     (if in_array MAX_WHISKERS i then
        (let col = whisker_col_id s (nat i) in
         if in_array MAX_STEPPERS col then
           (case accel_steppers s (nat col) of
              None \<Rightarrow>
                Undefined NullPointer
                  (s\<lparr>output_buffer := (output_buffer s)
                       (0 := millis i, 1 := i, 2 := col, 3 := whisking_status s (nat col)),
                     buff_idx := 4, stepper_id := col\<rparr>)
            | Some m \<Rightarrow>
                (let buf = (output_buffer s)
                       (0 := millis i, 1 := i, 2 := col, 3 := whisking_status s (nat col),
                        4 := currentPosition m, 5 := analogRead i)
                 in Done (s\<lparr>output_buffer := buf, buff_idx := 6, stepper_id := col,
                            serial_out := serial_out s @ print_buffer buf 6\<rparr>)))
         else
           Undefined OutOfBounds
             (s\<lparr>output_buffer := (output_buffer s)(0 := millis i, 1 := i, 2 := col),
                buff_idx := 3, stepper_id := col\<rparr>))
      else
        Undefined OutOfBounds
          (s\<lparr>output_buffer := (output_buffer s)(0 := millis i, 1 := i), buff_idx := 2\<rparr>))"

definition timerIsr :: "(int \<Rightarrow> int) \<Rightarrow> (int \<Rightarrow> int) \<Rightarrow> state \<Rightarrow> outcome" where
  "timerIsr millis analogRead s =
     (if sampling s \<noteq> 0 then for_loop 0 (num_whiskers s) (sample_whisker millis analogRead) s
      else Done s)"

section \<open>Runs of the main cycle and what the properties speak of\<close>

text \<open>The state after \<open>n\<close> passes of \<^verbatim>\<open>loop()\<close>; \<open>ws k\<close> is what surrounds pass \<open>k\<close>.\<close>

fun cycles :: "(nat \<Rightarrow> world) \<Rightarrow> nat \<Rightarrow> state \<Rightarrow> outcome" where
  "cycles ws 0 s = Done s"
| "cycles ws (Suc n) s = and_then (cycles ws n s) (loop (ws n))"

text \<open>The targets of the \<^verbatim>\<open>moveTo\<close> calls made on the axis \<open>a\<close>, oldest first.\<close>

fun moves_of :: "nat \<Rightarrow> call list \<Rightarrow> int list" where
  "moves_of a [] = []"
| "moves_of a (MoveTo i target # cs) = (if i = a then target # moves_of a cs else moves_of a cs)"
| "moves_of a (c # cs) = moves_of a cs"

text \<open>
  After bring-up within the supported hardware, every declared axis has its motor and
  its AccelStepper object (\<^verbatim>\<open>initializeSteppers\<close> creates one per declared axis).
\<close>

definition steppers_ready :: "state \<Rightarrow> bool" where
  "steppers_ready s \<longleftrightarrow>
     0 \<le> num_steppers s \<and> num_steppers s \<le> MAX_STEPPERS \<and>
     (\<forall>i \<in> {0..<nat (num_steppers s)}. steppers s i \<noteq> None \<and> accel_steppers s i \<noteq> None)"

text \<open>What is seen of one axis: its phase, position, target and the moves issued to it.\<close>

definition axis_view :: "nat \<Rightarrow> state \<Rightarrow> int \<times> int \<times> int \<times> int list" where
  "axis_view a s =
     (whisking_status s a,
      (case accel_steppers s a of Some m \<Rightarrow> currentPos m | None \<Rightarrow> 0),
      (case accel_steppers s a of Some m \<Rightarrow> targetPos m | None \<Rightarrow> 0),
      moves_of a (motor_calls s))"

text \<open>
  What one pass of \<^verbatim>\<open>loop()\<close> without input does to the view of a ready axis whose
  retraction target is \<open>ret\<close>, and what \<open>n\<close> passes do.
\<close>

definition axis_step :: "int \<Rightarrow> bool \<Rightarrow> int \<times> int \<times> int \<times> int list \<Rightarrow> int \<times> int \<times> int \<times> int list" where
  "axis_step ret due v =
     (case v of (st, pos, tgt, mv) \<Rightarrow>
        (let st1 = (if st \<noteq> 0 \<and> tgt - pos = 0 then st - 1 else st);
             issue = (st \<noteq> 0 \<and> tgt - pos = 0 \<and> st - 1 \<noteq> 0);
             tgt1 = (if issue then ret else tgt);
             mv1 = (if issue then mv @ [ret] else mv);
             pos1 = (if due \<and> tgt1 - pos \<noteq> 0 then (if 0 < tgt1 - pos then pos + 1 else pos - 1) else pos)
         in (st1, pos1, tgt1, mv1)))"

fun axis_run :: "int \<Rightarrow> (nat \<Rightarrow> bool) \<Rightarrow> nat \<Rightarrow> int \<times> int \<times> int \<times> int list \<Rightarrow> int \<times> int \<times> int \<times> int list" where
  "axis_run ret due 0 v = v"
| "axis_run ret due (Suc n) v = axis_step ret (due n) (axis_run ret due n v)"

text \<open>
  The state bring-up reaches on the lines \<^verbatim>\<open>s 0 12 22 00\<close> and \<^verbatim>\<open>c\<close>: one shield with two
  axes of two whiskers each. With it, a pass of \<^verbatim>\<open>loop()\<close> that receives nothing and
  finds every step due.
\<close>

definition two_axes :: state where
  "two_axes =
     (case setup_ino [''s 0 12 22 00'' @ [CHR 0x0D], ''c'' @ [CHR 0x0D]] init_state of
        Done t \<Rightarrow> t
      | _ \<Rightarrow> init_state)"

definition quiet_world :: world where
  "quiet_world = \<lparr>rx = [], digitalRead = (\<lambda>pin k. False), brake = (\<lambda>i. 0), step_due = (\<lambda>i. True)\<rparr>"

text \<open>
  What holds of the state all through the command loop of \<^verbatim>\<open>setup()\<close>, and the parts of
  the state that the loops of bring-up leave alone.
\<close>

definition setup_inv :: "state \<Rightarrow> bool" where
  "setup_inv s \<longleftrightarrow>
     prot_steps s = prot_steps init_state \<and> ret_steps s = ret_steps init_state \<and>
     0 \<le> num_steppers s \<and> num_steppers s \<le> MAX_STEPPERS \<and>
     (\<forall>i. steppers s i \<noteq> None \<longleftrightarrow> int i < num_steppers s) \<and>
     (\<forall>i. accel_steppers s i = None) \<and>
     (\<forall>i. whisker_col_id s i = 0 \<or> (0 \<le> whisker_col_id s i \<and> whisker_col_id s i < num_steppers s)) \<and>
     (num_steppers s = 0 \<longrightarrow> num_whiskers s = 0)"

definition same_axes :: "state \<Rightarrow> state \<Rightarrow> bool" where
  "same_axes s t \<longleftrightarrow>
     prot_steps t = prot_steps s \<and> ret_steps t = ret_steps s \<and> num_steppers t = num_steppers s \<and>
     steppers t = steppers s \<and> accel_steppers t = accel_steppers s \<and>
     num_whiskers t = num_whiskers s \<and> num_shields t = num_shields s"

definition same_axes_but_accel :: "state \<Rightarrow> state \<Rightarrow> bool" where
  "same_axes_but_accel s t \<longleftrightarrow>
     prot_steps t = prot_steps s \<and> ret_steps t = ret_steps s \<and> num_steppers t = num_steppers s \<and>
     steppers t = steppers s \<and> num_whiskers t = num_whiskers s \<and>
     whisker_col_id t = whisker_col_id s"

text \<open>A command buffer that holds the line \<open>str\<close>, then NUL bytes.\<close>

definition c_line :: "string \<Rightarrow> nat \<Rightarrow> char" where
  "c_line str p = (if p < length str then str ! p else NUL)"

text \<open>A single-axis effect \<open>f\<close> applied to the axes of a list, one after the other.\<close>

fun each_axis :: "(int \<Rightarrow> state \<Rightarrow> outcome) \<Rightarrow> int list \<Rightarrow> state \<Rightarrow> outcome" where
  "each_axis f [] s = Done s"
| "each_axis f (i # js) s = and_then (f i s) (each_axis f js)"

text \<open>
  The whisker count is within \<^verbatim>\<open>MAX_WHISKERS\<close> and every whisker is bound to an axis that
  has its AccelStepper object.
\<close>

definition whiskers_ready :: "state \<Rightarrow> bool" where
  "whiskers_ready s \<longleftrightarrow>
     num_whiskers s \<le> MAX_WHISKERS \<and>
     (\<forall>i \<in> {0..<nat (num_whiskers s)}.
        in_array MAX_STEPPERS (whisker_col_id s i) \<and>
        accel_steppers s (nat (whisker_col_id s i)) \<noteq> None)"

text \<open>
  The line of the telemetry format for the whisker \<open>i\<close>: six fields in the order time
  stamp, whisker, owning axis, phase of that axis, position of that axis, sensor
  reading, each followed by a blank, and the end of the line.
\<close>

definition telemetry_line :: "state \<Rightarrow> int \<Rightarrow> nat \<Rightarrow> int \<Rightarrow> out list" where
  "telemetry_line s timestamp i reading =
     [PrintLong timestamp, PrintChar CHR '' '',
      PrintLong (int i), PrintChar CHR '' '',
      PrintLong (whisker_col_id s i), PrintChar CHR '' '',
      PrintLong (whisking_status s (nat (whisker_col_id s i))), PrintChar CHR '' '',
      PrintLong (case accel_steppers s (nat (whisker_col_id s i)) of
                   Some m \<Rightarrow> currentPosition m | None \<Rightarrow> 0), PrintChar CHR '' '',
      PrintLong reading, PrintChar CHR '' '',
      Println]"

text \<open>The hardware calls of a homing that takes \<open>n\<close> steps.\<close>

definition home_calls :: "nat \<Rightarrow> int \<Rightarrow> nat \<Rightarrow> call list" where
  "home_calls a left n =
     concat (replicate n [OneStep a (if left \<noteq> 0 then FORWARD else BACKWARD) SINGLE, Delay 25])"

text \<open>The axis 0 of that state five passes after \<^verbatim>\<open>whisk 0\<close>, on its way to the protraction target.\<close>

definition mid_protraction :: state where
  "mid_protraction =
     (case and_then (whisk 0 two_axes) (cycles (\<lambda>k. quiet_world) 5) of
        Done t \<Rightarrow> t
      | _ \<Rightarrow> two_axes)"

text \<open>The same bring-up with sampling switched on.\<close>

definition sampling_on :: state where
  "sampling_on = two_axes\<lparr>sampling := 1\<rparr>"

text \<open>A pass of \<^verbatim>\<open>loop()\<close> that receives the line \<^verbatim>\<open>set_speed 999 1200\<close>.\<close>

definition speed_line :: world where
  "speed_line = quiet_world\<lparr>rx := ''set_speed 999 1200'' @ [CHR 0x0D]\<rparr>"

section \<open>Basic facts\<close>


lemma and_then_Done [simp]: "and_then (Done s) f = f s"
  by (simp add: and_then_def)

lemma and_then_Undefined [simp]: "and_then (Undefined e s) f = Undefined e s"
  by (simp add: and_then_def)

lemma and_then_Blocked [simp]: "and_then Blocked f = Blocked"
  by (simp add: and_then_def)

lemma moves_of_append: "moves_of a (xs @ ys) = moves_of a xs @ moves_of a ys"
  by (induction a xs rule: moves_of.induct) simp_all

lemma for_loop_invariant:
  assumes "I i s"
    and "\<And>j t. i \<le> j \<Longrightarrow> j < n \<Longrightarrow> I j t \<Longrightarrow> \<exists>u. body j t = Done u \<and> I (j + 1) u"
    and "i \<le> n"
  shows "\<exists>u. for_loop i n body s = Done u \<and> I n u"
  using assms
proof (induction i n body s rule: for_loop.induct)
  case (1 i n body s)
  show ?case
  proof (cases "i < n")
    case True
    from "1.prems"(2) [of i s] True "1.prems"(1)
    obtain t where t: "body i s = Done t" "I (i + 1) t"
      by auto
    have "\<exists>u. for_loop (i + 1) n body t = Done u \<and> I n u"
    proof (rule "1.IH" [OF True])
      show "I (i + 1) t" by (rule t)
      show "\<exists>u. body j t' = Done u \<and> I (j + 1) u" if "i + 1 \<le> j" "j < n" "I j t'" for j t'
        using that "1.prems"(2) [of j t'] by simp
      show "i + 1 \<le> n" using True by simp
    qed
    then show ?thesis
      using True t by (subst for_loop.simps) simp
  next
    case False
    then have "i = n" using "1.prems"(3) by simp
    then show ?thesis
      using "1.prems"(1) by (subst for_loop.simps) simp
  qed
qed

lemma ball_upt: "(\<forall>i\<in>{0..<n}. P i) \<longleftrightarrow> list_all P [0..<n]"
  by (simp add: list_all_iff)

lemma two_axes_steppers:
  "num_steppers two_axes = 2" "steppers_ready two_axes"
  by code_simp+

lemma two_axes_whiskers:
  "num_whiskers two_axes = 4"
  "whisker_col_id two_axes 0 = 1" "whisker_col_id two_axes (Suc 0) = 1"
  "whisker_col_id two_axes (Suc (Suc 0)) = 0" "whisker_col_id two_axes (Suc (Suc (Suc 0))) = 0"
  by code_simp+

lemma two_axes_accel:
  "accel_steppers two_axes 0 = Some \<lparr>currentPos = 0, targetPos = 0, maxSpeed = 1500, acceleration = 500\<rparr>"
  "accel_steppers two_axes (Suc 0) = Some \<lparr>currentPos = 0, targetPos = 0, maxSpeed = 1500, acceleration = 500\<rparr>"
  by code_simp+

lemma advance_axis_ready:
  assumes "in_array MAX_STEPPERS j" "steppers t (nat j) = Some mo" "accel_steppers t (nat j) = Some m"
  shows "\<exists>u. advance_axis due j t = Done u \<and>
           axis_view (nat j) u = axis_step (ret_steps t (nat j)) (due (nat j)) (axis_view (nat j) t) \<and>
           (\<forall>b. b \<noteq> nat j \<longrightarrow> axis_view b u = axis_view b t) \<and>
           num_steppers u = num_steppers t \<and> ret_steps u = ret_steps t \<and> prot_steps u = prot_steps t \<and>
           steppers u = steppers t \<and> (\<forall>b. (accel_steppers u b = None) = (accel_steppers t b = None))"
  using assms
  by (auto simp: advance_axis_def check_status_def run_axis_def run_def accel_moveTo_def on_accel_def
      onestep_def log_call_def axis_view_def axis_step_def distanceToGo_def moveTo_def Let_def moves_of_append
      split: option.splits)


lemma steppers_ready_axis:
  "steppers_ready s \<Longrightarrow> 0 \<le> j \<Longrightarrow> j < num_steppers s \<Longrightarrow>
     in_array MAX_STEPPERS j \<and> (\<exists>mo. steppers s (nat j) = Some mo) \<and> (\<exists>m. accel_steppers s (nat j) = Some m)"
  unfolding steppers_ready_def in_array_def
  by (auto simp: nat_less_iff)

lemma loop_quiet_axis:
  assumes ready: "steppers_ready s" and quiet: "rx w = []" and a: "int a < num_steppers s"
  shows "\<exists>t. loop w s = Done t \<and> steppers_ready t \<and> num_steppers t = num_steppers s \<and>
           ret_steps t = ret_steps s \<and> prot_steps t = prot_steps s \<and>
           axis_view a t = axis_step (ret_steps s a) (step_due w a) (axis_view a s)"
proof -
  define I where "I j t \<longleftrightarrow> steppers_ready t \<and> num_steppers t = num_steppers s \<and>
           ret_steps t = ret_steps s \<and> prot_steps t = prot_steps s \<and>
           axis_view a t = (if int a < j then axis_step (ret_steps s a) (step_due w a) (axis_view a s)
                            else axis_view a s)" for j t
  have "\<exists>u. for_loop 0 (num_steppers s) (advance_axis (step_due w)) s = Done u \<and> I (num_steppers s) u"
  proof (rule for_loop_invariant)
    show "I 0 s"
      using ready by (simp add: I_def)
    show "0 \<le> num_steppers s"
      using ready by (simp add: steppers_ready_def)
    show "\<exists>u. advance_axis (step_due w) j t = Done u \<and> I (j + 1) u"
      if j: "0 \<le> j" "j < num_steppers s" and inv: "I j t" for j t
    proof -
      from inv have rt: "steppers_ready t" and nt: "num_steppers t = num_steppers s"
        and ret: "ret_steps t = ret_steps s"
        by (simp_all add: I_def)
      from steppers_ready_axis [OF rt j(1)] j(2) nt
      obtain mo m where inb: "in_array MAX_STEPPERS j" and mo: "steppers t (nat j) = Some mo"
        and m: "accel_steppers t (nat j) = Some m"
        by auto
      from advance_axis_ready [OF inb mo m, of "step_due w"]
      obtain u where u: "advance_axis (step_due w) j t = Done u"
        and own: "axis_view (nat j) u = axis_step (ret_steps t (nat j)) (step_due w (nat j)) (axis_view (nat j) t)"
        and others: "\<forall>b. b \<noteq> nat j \<longrightarrow> axis_view b u = axis_view b t"
        and keep: "num_steppers u = num_steppers t" "ret_steps u = ret_steps t" "prot_steps u = prot_steps t"
          "steppers u = steppers t" "\<forall>b. (accel_steppers u b = None) = (accel_steppers t b = None)"
        by blast
      have "steppers_ready u"
        using rt keep unfolding steppers_ready_def by simp
      moreover have "axis_view a u =
          (if int a < j + 1 then axis_step (ret_steps s a) (step_due w a) (axis_view a s) else axis_view a s)"
      proof (cases "a = nat j")
        case True
        then have "\<not> int a < j" "int a < j + 1"
          using j by simp_all
        then show ?thesis
          using own inv True ret by (simp add: I_def)
      next
        case False
        then have "(int a < j + 1) = (int a < j)"
          using j by auto
        then show ?thesis
          using others inv False by (simp add: I_def)
      qed
      ultimately have "I (j + 1) u"
        using inv keep by (simp add: I_def)
      then show ?thesis using u by blast
    qed
  qed
  then show ?thesis
    using a quiet by (auto simp: loop_def I_def)
qed

lemma cycles_quiet_axis:
  assumes ready: "steppers_ready s" and quiet: "\<forall>k. rx (ws k) = []" and a: "int a < num_steppers s"
  shows "\<exists>t. cycles ws n s = Done t \<and> steppers_ready t \<and> num_steppers t = num_steppers s \<and>
           ret_steps t = ret_steps s \<and> prot_steps t = prot_steps s \<and>
           axis_view a t = axis_run (ret_steps s a) (\<lambda>k. step_due (ws k) a) n (axis_view a s)"
proof (induction n)
  case 0
  show ?case using ready by simp
next
  case (Suc n)
  then obtain t where t: "cycles ws n s = Done t" "steppers_ready t" "num_steppers t = num_steppers s"
    "ret_steps t = ret_steps s" "prot_steps t = prot_steps s"
    "axis_view a t = axis_run (ret_steps s a) (\<lambda>k. step_due (ws k) a) n (axis_view a s)"
    by blast
  from loop_quiet_axis [OF t(2), of "ws n" a] quiet a t(3)
  obtain u where "loop (ws n) t = Done u" "steppers_ready u" "num_steppers u = num_steppers t"
    "ret_steps u = ret_steps t" "prot_steps u = prot_steps t"
    "axis_view a u = axis_step (ret_steps t a) (step_due (ws n) a) (axis_view a t)"
    by auto
  then show ?case
    using t by simp
qed

section \<open>The whisking cycle\<close>

lemma axis_run_wait:
  assumes "axis_run ret due j v = (st, pos, tgt, mv)" and "tgt \<noteq> pos"
    and "\<forall>i. j \<le> i \<and> i < j' \<longrightarrow> \<not> due i" and "j \<le> k" and "k \<le> j'"
  shows "axis_run ret due k v = (st, pos, tgt, mv)"
  using assms(4,5)
proof (induction k rule: dec_induct)
  case base
  show ?case by (rule assms(1))
next
  case (step n)
  then have "\<not> due n" and "axis_run ret due n v = (st, pos, tgt, mv)"
    using assms(3) by simp_all
  then show ?case
    using assms(2) by (simp add: axis_step_def)
qed

lemma axis_run_reach:
  assumes fair: "\<forall>k. \<exists>j\<ge>k. due j"
  shows "axis_run ret due j v = (st, pos, tgt, mv) \<Longrightarrow>
     \<exists>n\<ge>j. (\<forall>k. j \<le> k \<and> k \<le> n \<longrightarrow> (\<exists>p. axis_run ret due k v = (st, p, tgt, mv))) \<and>
            axis_run ret due n v = (st, tgt, tgt, mv)"
proof (induction "nat \<bar>tgt - pos\<bar>" arbitrary: j pos rule: less_induct)
  case less
  show ?case
  proof (cases "tgt = pos")
    case True
    then show ?thesis
      using less.prems by (intro exI [of _ j]) auto
  next
    case False
    from fair obtain j0 where "j \<le> j0" "due j0"
      by blast
    define j' where "j' = (LEAST i. j \<le> i \<and> due i)"
    have j': "j \<le> j'" "due j'"
      unfolding j'_def using LeastI [of "\<lambda>i. j \<le> i \<and> due i" j0] \<open>j \<le> j0\<close> \<open>due j0\<close> by simp_all
    have nodue: "\<forall>i. j \<le> i \<and> i < j' \<longrightarrow> \<not> due i"
      unfolding j'_def using not_less_Least by blast
    have wait: "axis_run ret due k v = (st, pos, tgt, mv)" if "j \<le> k" "k \<le> j'" for k
      using axis_run_wait [OF less.prems _ nodue that] False by simp
    define pos' where "pos' = (if 0 < tgt - pos then pos + 1 else pos - 1)"
    have next_: "axis_run ret due (Suc j') v = (st, pos', tgt, mv)"
      using wait [of j'] j' False by (simp add: axis_step_def pos'_def)
    have "nat \<bar>tgt - pos'\<bar> < nat \<bar>tgt - pos\<bar>"
      using False by (auto simp: pos'_def)
    from less.hyps [OF this next_]
    obtain n where n: "Suc j' \<le> n"
      "\<forall>k. Suc j' \<le> k \<and> k \<le> n \<longrightarrow> (\<exists>p. axis_run ret due k v = (st, p, tgt, mv))"
      "axis_run ret due n v = (st, tgt, tgt, mv)"
      by blast
    have "\<exists>p. axis_run ret due k v = (st, p, tgt, mv)" if "j \<le> k" "k \<le> n" for k
    proof (cases "k \<le> j'")
      case True
      then show ?thesis using wait [OF that(1)] by blast
    next
      case False
      then show ?thesis using n(2) that by simp
    qed
    then show ?thesis
      using n(1,3) j'(1) by (intro exI [of _ n]) auto
  qed
qed

lemma axis_run_idle:
  assumes "axis_run ret due j v = (0, p, p, mv)" and "j \<le> k"
  shows "axis_run ret due k v = (0, p, p, mv)"
  using assms(2)
proof (induction k rule: dec_induct)
  case base
  show ?case by (rule assms(1))
next
  case (step n)
  then show ?case by (simp add: axis_step_def)
qed


lemma axis_run_retract_shape:
  assumes fair: "\<forall>k. \<exists>j\<ge>k. due j" and start: "axis_run ret due j v = (1, pos, tgt, mv)"
  shows "\<exists>n\<ge>j. (\<forall>k. j \<le> k \<and> k \<le> n \<longrightarrow> (\<exists>p. axis_run ret due k v = (1, p, tgt, mv))) \<and>
            (\<forall>k. n < k \<longrightarrow> axis_run ret due k v = (0, tgt, tgt, mv))"
proof -
  from axis_run_reach [OF fair start]
  obtain n where n: "j \<le> n"
    "\<forall>k. j \<le> k \<and> k \<le> n \<longrightarrow> (\<exists>p. axis_run ret due k v = (1, p, tgt, mv))"
    "axis_run ret due n v = (1, tgt, tgt, mv)"
    by blast
  have "axis_run ret due (Suc n) v = (0, tgt, tgt, mv)"
    using n(3) by (simp add: axis_step_def)
  then have "axis_run ret due k v = (0, tgt, tgt, mv)" if "n < k" for k
    using axis_run_idle [of ret due "Suc n" v tgt mv k] that by simp
  then show ?thesis
    using n(1,2) by blast
qed

lemma axis_run_whisk_shape:
  assumes fair: "\<forall>k. \<exists>j\<ge>k. due j"
  shows "\<exists>n1 n2. 0 < n2 \<and>
      (\<forall>k\<le>n1. \<exists>p. axis_run ret due k (2, pos, prot, mv) = (2, p, prot, mv)) \<and>
      (\<forall>k. n1 < k \<and> k \<le> n1 + n2 \<longrightarrow> (\<exists>p. axis_run ret due k (2, pos, prot, mv) = (1, p, ret, mv @ [ret]))) \<and>
      (\<forall>k. n1 + n2 < k \<longrightarrow> axis_run ret due k (2, pos, prot, mv) = (0, ret, ret, mv @ [ret]))"
proof -
  let ?v = "(2, pos, prot, mv)"
  have "axis_run ret due 0 ?v = (2, pos, prot, mv)"
    by simp
  from axis_run_reach [OF fair this]
  obtain n1 where n1: "\<forall>k. k \<le> n1 \<longrightarrow> (\<exists>p. axis_run ret due k ?v = (2, p, prot, mv))"
    "axis_run ret due n1 ?v = (2, prot, prot, mv)"
    by auto
  have "\<exists>p. axis_run ret due (Suc n1) ?v = (1, p, ret, mv @ [ret])"
    using n1(2) by (simp add: axis_step_def)
  then obtain p where "axis_run ret due (Suc n1) ?v = (1, p, ret, mv @ [ret])" ..
  from axis_run_retract_shape [OF fair this]
  obtain n where n: "Suc n1 \<le> n"
    "\<forall>k. Suc n1 \<le> k \<and> k \<le> n \<longrightarrow> (\<exists>p. axis_run ret due k ?v = (1, p, ret, mv @ [ret]))"
    "\<forall>k. n < k \<longrightarrow> axis_run ret due k ?v = (0, ret, ret, mv @ [ret])"
    by blast
  define n2 where "n2 = n - n1"
  have "0 < n2" "n1 + n2 = n"
    using n(1) by (simp_all add: n2_def)
  then show ?thesis
    using n1(1) n(2,3) by (intro exI [of _ n1] exI [of _ n2]) (auto simp: Suc_le_eq)
qed

lemma axis_run_retract_safe:
  "axis_run ret due k (1, pos, tgt, mv) = (0, tgt, tgt, mv) \<or>
   (\<exists>p. axis_run ret due k (1, pos, tgt, mv) = (1, p, tgt, mv))"
  by (induction k) (auto simp: axis_step_def split: if_splits)

lemma whisk_ready:
  assumes "steppers_ready s" "0 \<le> a" "a < num_steppers s" "accel_steppers s (nat a) = Some m"
  shows "whisk a s = Done (s\<lparr>whisking_status := (whisking_status s)(nat a := 2),
            accel_steppers := (accel_steppers s)(nat a \<mapsto> m\<lparr>targetPos := prot_steps s (nat a)\<rparr>),
            motor_calls := motor_calls s @ [MoveTo (nat a) (prot_steps s (nat a))]\<rparr>)"
proof -
  have "a \<noteq> ALL_FLAG" "in_array MAX_STEPPERS a"
    using assms by (simp_all add: steppers_ready_def ALL_FLAG_def MAX_STEPPERS_def in_array_def)
  then show ?thesis
    using assms(4)
    by (simp add: whisk_def whisk_axis_def accel_moveTo_def on_accel_def moveTo_def log_call_def)
qed

lemma steppers_ready_update:
  "steppers_ready s \<Longrightarrow> num_steppers t = num_steppers s \<Longrightarrow> steppers t = steppers s \<Longrightarrow>
   (\<forall>b. (accel_steppers t b = None) = (accel_steppers s b = None)) \<Longrightarrow> steppers_ready t"
  by (simp add: steppers_ready_def)

text \<open>
  C1. Let the declared axis \<open>a\<close> be idle with no distance to go. The command
  \<^verbatim>\<open>whisk a\<close> sets its phase to 2 and issues a move to its protraction target. In the
  passes of \<^verbatim>\<open>loop()\<close> that follow, with no further input and with steps falling due
  for the axis again and again, the phase is 2 up to some pass \<open>n1\<close>, then 1 for
  \<open>n2 > 0\<close> passes, then 0 for ever. The only move issued on the way is the one to the
  retraction target, at the change from 2 to 1; none is issued at the change from 1 to
  0, and from then on the position is the retraction target.
\<close>

theorem whisk_cycle:
  assumes ready: "steppers_ready s"
    and axis: "0 \<le> a" "a < num_steppers s"
    and idle: "whisking_status s (nat a) = 0"
    and rest: "accel_steppers s (nat a) = Some m" "distanceToGo m = 0"
    and quiet: "\<forall>k. rx (ws k) = []"
    and fair: "\<forall>k. \<exists>j\<ge>k. step_due (ws j) (nat a)"
  shows "\<exists>s1 n1 n2.
      whisk a s = Done s1 \<and>
      whisking_status s1 (nat a) = 2 \<and>
      motor_calls s1 = motor_calls s @ [MoveTo (nat a) (prot_steps s (nat a))] \<and>
      0 < n2 \<and>
      (\<forall>k\<le>n1. \<exists>t p. cycles ws k s1 = Done t \<and>
          axis_view (nat a) t = (2, p, prot_steps s (nat a), moves_of (nat a) (motor_calls s1))) \<and>
      (\<forall>k. n1 < k \<and> k \<le> n1 + n2 \<longrightarrow> (\<exists>t p. cycles ws k s1 = Done t \<and>
          axis_view (nat a) t =
            (1, p, ret_steps s (nat a), moves_of (nat a) (motor_calls s1) @ [ret_steps s (nat a)]))) \<and>
      (\<forall>k. n1 + n2 < k \<longrightarrow> (\<exists>t. cycles ws k s1 = Done t \<and>
          axis_view (nat a) t =
            (0, ret_steps s (nat a), ret_steps s (nat a),
             moves_of (nat a) (motor_calls s1) @ [ret_steps s (nat a)])))"
proof -
  define s1 where "s1 = s\<lparr>whisking_status := (whisking_status s)(nat a := 2),
            accel_steppers := (accel_steppers s)(nat a \<mapsto> m\<lparr>targetPos := prot_steps s (nat a)\<rparr>),
            motor_calls := motor_calls s @ [MoveTo (nat a) (prot_steps s (nat a))]\<rparr>"
  have w: "whisk a s = Done s1"
    unfolding s1_def by (rule whisk_ready [OF ready axis rest(1)])
  have ready1: "steppers_ready s1"
    using rest(1) by (intro steppers_ready_update [OF ready]) (auto simp: s1_def)
  have a1: "int (nat a) < num_steppers s1"
    using axis by (simp add: s1_def)
  have keep: "ret_steps s1 = ret_steps s"
    by (simp add: s1_def)
  have v1: "axis_view (nat a) s1 =
      (2, currentPos m, prot_steps s (nat a), moves_of (nat a) (motor_calls s1))"
    by (simp add: axis_view_def s1_def)
  let ?due = "\<lambda>k. step_due (ws k) (nat a)"
  let ?run = "\<lambda>k. axis_run (ret_steps s (nat a)) ?due k (axis_view (nat a) s1)"
  have tr: "\<exists>t. cycles ws k s1 = Done t \<and> axis_view (nat a) t = ?run k" for k
    using cycles_quiet_axis [OF ready1 quiet a1, of k] keep by auto
  from axis_run_whisk_shape [OF fair, of "ret_steps s (nat a)" "currentPos m" "prot_steps s (nat a)"
      "moves_of (nat a) (motor_calls s1)"]
  obtain n1 n2 where n: "0 < n2"
    "\<forall>k\<le>n1. \<exists>p. ?run k = (2, p, prot_steps s (nat a), moves_of (nat a) (motor_calls s1))"
    "\<forall>k. n1 < k \<and> k \<le> n1 + n2 \<longrightarrow>
       (\<exists>p. ?run k = (1, p, ret_steps s (nat a), moves_of (nat a) (motor_calls s1) @ [ret_steps s (nat a)]))"
    "\<forall>k. n1 + n2 < k \<longrightarrow>
       ?run k = (0, ret_steps s (nat a), ret_steps s (nat a),
                 moves_of (nat a) (motor_calls s1) @ [ret_steps s (nat a)])"
    unfolding v1 by blast
  have p2: "\<forall>k\<le>n1. \<exists>t p. cycles ws k s1 = Done t \<and>
          axis_view (nat a) t = (2, p, prot_steps s (nat a), moves_of (nat a) (motor_calls s1))"
    using tr n(2) by metis
  have p1: "\<forall>k. n1 < k \<and> k \<le> n1 + n2 \<longrightarrow> (\<exists>t p. cycles ws k s1 = Done t \<and>
          axis_view (nat a) t =
            (1, p, ret_steps s (nat a), moves_of (nat a) (motor_calls s1) @ [ret_steps s (nat a)]))"
    using tr n(3) by metis
  have p0: "\<forall>k. n1 + n2 < k \<longrightarrow> (\<exists>t. cycles ws k s1 = Done t \<and>
          axis_view (nat a) t =
            (0, ret_steps s (nat a), ret_steps s (nat a),
             moves_of (nat a) (motor_calls s1) @ [ret_steps s (nat a)]))"
    using tr n(4) by metis
  have "whisking_status s1 (nat a) = 2"
    "motor_calls s1 = motor_calls s @ [MoveTo (nat a) (prot_steps s (nat a))]"
    by (simp_all add: s1_def)
  with w n(1) p2 p1 p0 show ?thesis
    by blast
qed

theorem whisk_cycle_witness:
  "\<exists>s1 n1 n2.
      whisk 0 two_axes = Done s1 \<and>
      whisking_status s1 0 = 2 \<and>
      motor_calls s1 = motor_calls two_axes @ [MoveTo 0 133] \<and>
      0 < n2 \<and>
      (\<forall>k\<le>n1. \<exists>t p. cycles (\<lambda>k. quiet_world) k s1 = Done t \<and> axis_view 0 t = (2, p, 133, [133])) \<and>
      (\<forall>k. n1 < k \<and> k \<le> n1 + n2 \<longrightarrow>
         (\<exists>t p. cycles (\<lambda>k. quiet_world) k s1 = Done t \<and> axis_view 0 t = (1, p, 22, [133, 22]))) \<and>
      (\<forall>k. n1 + n2 < k \<longrightarrow>
         (\<exists>t. cycles (\<lambda>k. quiet_world) k s1 = Done t \<and> axis_view 0 t = (0, 22, 22, [133, 22])))"
proof -
  let ?m = "\<lparr>currentPos = 0, targetPos = 0, maxSpeed = 1500, acceleration = 500\<rparr>"
  have r: "steppers_ready two_axes"
    by code_simp
  have n: "(0::int) \<le> 0" "0 < num_steppers two_axes"
    by code_simp+
  have i: "whisking_status two_axes (nat 0) = 0"
    by code_simp
  have m: "accel_steppers two_axes (nat 0) = Some ?m"
    by code_simp
  have d: "distanceToGo ?m = 0"
    by (simp add: distanceToGo_def)
  have q: "\<forall>k::nat. rx quiet_world = []"
    by (simp add: quiet_world_def)
  have f: "\<forall>k::nat. \<exists>j\<ge>k. step_due quiet_world (nat 0)"
  proof (rule allI)
    fix k :: nat
    show "\<exists>j\<ge>k. step_due quiet_world (nat 0)"
      by (rule exI [of _ k]) (simp add: quiet_world_def)
  qed
  have p: "prot_steps two_axes 0 = 133" "ret_steps two_axes 0 = 22"
    by code_simp+
  have c: "moves_of 0 (motor_calls two_axes) = []"
    by code_simp
  from whisk_cycle [OF r n i m d q f]
  obtain s1 n1 n2 where w: "whisk 0 two_axes = Done s1"
      "whisking_status s1 0 = 2"
      "motor_calls s1 = motor_calls two_axes @ [MoveTo 0 133]"
      "0 < n2"
      "\<forall>k\<le>n1. \<exists>t p. cycles (\<lambda>k. quiet_world) k s1 = Done t \<and>
          axis_view 0 t = (2, p, 133, moves_of 0 (motor_calls s1))"
      "\<forall>k. n1 < k \<and> k \<le> n1 + n2 \<longrightarrow> (\<exists>t p. cycles (\<lambda>k. quiet_world) k s1 = Done t \<and>
          axis_view 0 t = (1, p, 22, moves_of 0 (motor_calls s1) @ [22]))"
      "\<forall>k. n1 + n2 < k \<longrightarrow> (\<exists>t. cycles (\<lambda>k. quiet_world) k s1 = Done t \<and>
          axis_view 0 t = (0, 22, 22, moves_of 0 (motor_calls s1) @ [22]))"
    unfolding p nat_0 by blast
  have "moves_of 0 (motor_calls s1) = [133]"
    by (simp add: w(3) moves_of_append c)
  with w show ?thesis
    by (intro exI [of _ s1] exI [of _ n1] exI [of _ n2]) simp
qed

section \<open>Halting a whisk\<close>


lemma halt_whisk_ready:
  assumes "steppers_ready s" "0 \<le> a" "a < num_steppers s" "accel_steppers s (nat a) = Some m"
  shows "halt_whisk bk a s = Done (s\<lparr>accel_steppers :=
              (accel_steppers s)(nat a \<mapsto> m\<lparr>targetPos := currentPos m + bk (nat a)\<rparr>),
            motor_calls := motor_calls s @ [Stop (nat a)],
            whisking_status := (whisking_status s)(nat a := 1)\<rparr>)"
proof -
  have "a \<noteq> ALL_FLAG" "in_array MAX_STEPPERS a"
    using assms by (simp_all add: steppers_ready_def ALL_FLAG_def MAX_STEPPERS_def in_array_def)
  then show ?thesis
    using assms(4)
    by (simp add: halt_whisk_def halt_whisk_axis_def accel_stop_def on_accel_def stop_def log_call_def)
qed

text \<open>
  C3. Whatever the phase of the declared axis \<open>a\<close> was, \<^verbatim>\<open>halt_whisk a\<close> calls \<^verbatim>\<open>stop()\<close> on
  the axis and sets its phase to 1, and changes the phase of no other axis. The target
  that was pending is given up: the new one is the position plus the deceleration
  distance. In the passes of \<^verbatim>\<open>loop()\<close> that follow without input, the phase is 1 or 0,
  no move is issued and the target stays; when steps fall due again and again, the
  phase is 1 up to some pass and 0 from then on. The phase never returns to 2.
\<close>

theorem halt_whisk_retracts:
  assumes ready: "steppers_ready s"
    and axis: "0 \<le> a" "a < num_steppers s"
    and obj: "accel_steppers s (nat a) = Some m"
    and quiet: "\<forall>k. rx (ws k) = []"
  shows "\<exists>s1.
      halt_whisk bk a s = Done s1 \<and>
      whisking_status s1 = (whisking_status s)(nat a := 1) \<and>
      motor_calls s1 = motor_calls s @ [Stop (nat a)] \<and>
      accel_steppers s1 (nat a) = Some (m\<lparr>targetPos := currentPos m + bk (nat a)\<rparr>) \<and>
      (\<forall>k. \<exists>t. cycles ws k s1 = Done t \<and>
         ((\<exists>p. axis_view (nat a) t =
                 (1, p, currentPos m + bk (nat a), moves_of (nat a) (motor_calls s))) \<or>
          axis_view (nat a) t =
            (0, currentPos m + bk (nat a), currentPos m + bk (nat a),
             moves_of (nat a) (motor_calls s)))) \<and>
      ((\<forall>k. \<exists>j\<ge>k. step_due (ws j) (nat a)) \<longrightarrow>
         (\<exists>n. (\<forall>k\<le>n. \<exists>t p. cycles ws k s1 = Done t \<and>
                  axis_view (nat a) t =
                    (1, p, currentPos m + bk (nat a), moves_of (nat a) (motor_calls s))) \<and>
              (\<forall>k>n. \<exists>t. cycles ws k s1 = Done t \<and>
                  axis_view (nat a) t =
                    (0, currentPos m + bk (nat a), currentPos m + bk (nat a),
                     moves_of (nat a) (motor_calls s)))))"
proof -
  define T where "T = currentPos m + bk (nat a)"
  define M where "M = moves_of (nat a) (motor_calls s)"
  define s1 where "s1 = s\<lparr>accel_steppers :=
              (accel_steppers s)(nat a \<mapsto> m\<lparr>targetPos := currentPos m + bk (nat a)\<rparr>),
            motor_calls := motor_calls s @ [Stop (nat a)],
            whisking_status := (whisking_status s)(nat a := 1)\<rparr>"
  have h: "halt_whisk bk a s = Done s1"
    unfolding s1_def by (rule halt_whisk_ready [OF ready axis obj])
  have ready1: "steppers_ready s1"
    using obj by (intro steppers_ready_update [OF ready]) (auto simp: s1_def)
  have a1: "int (nat a) < num_steppers s1"
    using axis by (simp add: s1_def)
  have v1: "axis_view (nat a) s1 = (1, currentPos m, T, M)"
    by (simp add: axis_view_def s1_def T_def M_def moves_of_append)
  let ?due = "\<lambda>k. step_due (ws k) (nat a)"
  let ?run = "\<lambda>k. axis_run (ret_steps s1 (nat a)) ?due k (1, currentPos m, T, M)"
  have tr: "\<exists>t. cycles ws k s1 = Done t \<and> axis_view (nat a) t = ?run k" for k
    using cycles_quiet_axis [OF ready1 quiet a1, of k] v1 by auto
  have safe: "\<forall>k. \<exists>t. cycles ws k s1 = Done t \<and>
         ((\<exists>p. axis_view (nat a) t = (1, p, T, M)) \<or> axis_view (nat a) t = (0, T, T, M))"
  proof
    fix k
    from tr [of k] obtain t where t: "cycles ws k s1 = Done t" "axis_view (nat a) t = ?run k"
      by blast
    from axis_run_retract_safe [of "ret_steps s1 (nat a)" ?due k "currentPos m" T M] t
    show "\<exists>t. cycles ws k s1 = Done t \<and>
         ((\<exists>p. axis_view (nat a) t = (1, p, T, M)) \<or> axis_view (nat a) t = (0, T, T, M))"
      by auto
  qed
  have live: "\<exists>n. (\<forall>k\<le>n. \<exists>t p. cycles ws k s1 = Done t \<and> axis_view (nat a) t = (1, p, T, M)) \<and>
              (\<forall>k>n. \<exists>t. cycles ws k s1 = Done t \<and> axis_view (nat a) t = (0, T, T, M))"
    if fair: "\<forall>k. \<exists>j\<ge>k. step_due (ws j) (nat a)"
  proof -
    have "axis_run (ret_steps s1 (nat a)) ?due 0 (1, currentPos m, T, M) = (1, currentPos m, T, M)"
      by simp
    from axis_run_retract_shape [OF fair this]
    obtain n where n: "\<forall>k. k \<le> n \<longrightarrow> (\<exists>p. ?run k = (1, p, T, M))"
      "\<forall>k. n < k \<longrightarrow> ?run k = (0, T, T, M)"
      by auto
    have "\<forall>k\<le>n. \<exists>t p. cycles ws k s1 = Done t \<and> axis_view (nat a) t = (1, p, T, M)"
      using tr n(1) by metis
    moreover have "\<forall>k>n. \<exists>t. cycles ws k s1 = Done t \<and> axis_view (nat a) t = (0, T, T, M)"
      using tr n(2) by metis
    ultimately show ?thesis by blast
  qed
  have "whisking_status s1 = (whisking_status s)(nat a := 1)"
    "motor_calls s1 = motor_calls s @ [Stop (nat a)]"
    "accel_steppers s1 (nat a) = Some (m\<lparr>targetPos := currentPos m + bk (nat a)\<rparr>)"
    by (simp_all add: s1_def)
  with h safe live show ?thesis
    unfolding T_def M_def by blast
qed

theorem halt_whisk_retracts_witness:
  "\<exists>s1.
      whisking_status mid_protraction 0 = 2 \<and>
      axis_view 0 mid_protraction = (2, 5, 133, [133]) \<and>
      halt_whisk (\<lambda>i. 2) 0 mid_protraction = Done s1 \<and>
      whisking_status s1 0 = 1 \<and>
      accel_steppers s1 0 = Some \<lparr>currentPos = 5, targetPos = 7, maxSpeed = 1500, acceleration = 500\<rparr> \<and>
      (\<exists>n. (\<forall>k\<le>n. \<exists>t p. cycles (\<lambda>k. quiet_world) k s1 = Done t \<and> axis_view 0 t = (1, p, 7, [133])) \<and>
           (\<forall>k>n. \<exists>t. cycles (\<lambda>k. quiet_world) k s1 = Done t \<and> axis_view 0 t = (0, 7, 7, [133])))"
proof -
  let ?m = "\<lparr>currentPos = 5, targetPos = 133, maxSpeed = 1500, acceleration = 500\<rparr>"
  have r: "steppers_ready mid_protraction"
    by code_simp
  have n: "(0::int) \<le> 0" "0 < num_steppers mid_protraction"
    by code_simp+
  have m: "accel_steppers mid_protraction (nat 0) = Some ?m"
    by code_simp
  have q: "\<forall>k::nat. rx quiet_world = []"
    by (simp add: quiet_world_def)
  have f: "\<forall>k::nat. \<exists>j\<ge>k. step_due quiet_world (nat 0)"
  proof (rule allI)
    fix k :: nat
    show "\<exists>j\<ge>k. step_due quiet_world (nat 0)"
      by (rule exI [of _ k]) (simp add: quiet_world_def)
  qed
  have c: "moves_of 0 (motor_calls mid_protraction) = [133]"
    by code_simp
  have v: "whisking_status mid_protraction 0 = 2" "axis_view 0 mid_protraction = (2, 5, 133, [133])"
    by code_simp+
  from halt_whisk_retracts [OF r n m q, of "\<lambda>i. 2"] f
  obtain s1 where s1: "halt_whisk (\<lambda>i. 2) 0 mid_protraction = Done s1"
    "whisking_status s1 = (whisking_status mid_protraction)(nat 0 := 1)"
    "accel_steppers s1 (nat 0) = Some (?m\<lparr>targetPos := currentPos ?m + 2\<rparr>)"
    "\<exists>n. (\<forall>k\<le>n. \<exists>t p. cycles (\<lambda>k. quiet_world) k s1 = Done t \<and>
                  axis_view (nat 0) t = (1, p, currentPos ?m + 2, moves_of (nat 0) (motor_calls mid_protraction))) \<and>
              (\<forall>k>n. \<exists>t. cycles (\<lambda>k. quiet_world) k s1 = Done t \<and>
                  axis_view (nat 0) t = (0, currentPos ?m + 2, currentPos ?m + 2, moves_of (nat 0) (motor_calls mid_protraction)))"
    by blast
  from s1(4) have "\<exists>n. (\<forall>k\<le>n. \<exists>t p. cycles (\<lambda>k. quiet_world) k s1 = Done t \<and> axis_view 0 t = (1, p, 7, [133])) \<and>
           (\<forall>k>n. \<exists>t. cycles (\<lambda>k. quiet_world) k s1 = Done t \<and> axis_view 0 t = (0, 7, 7, [133]))"
    by (simp add: c)
  with s1(1,2,3) v show ?thesis
    by (intro exI [of _ s1]) simp
qed

section \<open>Homing\<close>


lemma home_loop_finish:
  "\<forall>j<n. high (k + j) \<Longrightarrow> \<not> high (k + n) \<Longrightarrow>
   in_array MAX_STEPPERS i \<Longrightarrow> steppers s (nat i) = Some mo \<Longrightarrow>
     home_loop high i k s =
       Some (Done (s\<lparr>motor_calls := motor_calls s @ home_calls (nat i) (is_left s (nat i)) n\<rparr>))"
proof (induction n arbitrary: k s)
  case 0
  then show ?case
    by (subst home_loop.simps) (simp add: home_calls_def)
next
  case (Suc n)
  let ?d = "if is_left s (nat i) \<noteq> 0 then FORWARD else BACKWARD"
  let ?s = "log_call (Delay 25) (log_call (OneStep (nat i) ?d SINGLE) s)"
  have hk: "high k"
    using Suc.prems(1) [rule_format, of 0] by simp
  have step: "onestep i ?d SINGLE s = Done (log_call (OneStep (nat i) ?d SINGLE) s)"
    using Suc.prems(3,4) by (simp add: onestep_def)
  have rest: "\<forall>j<n. high (Suc k + j)" "\<not> high (Suc k + n)"
    using Suc.prems(1,2) by auto
  have "home_loop high i (Suc k) ?s =
      Some (Done (?s\<lparr>motor_calls := motor_calls ?s @ home_calls (nat i) (is_left ?s (nat i)) n\<rparr>))"
    using Suc.prems(3,4) by (intro Suc.IH [OF rest]) (simp_all add: log_call_def)
  then have "home_loop high i k s =
      Some (Done (?s\<lparr>motor_calls := motor_calls ?s @ home_calls (nat i) (is_left ?s (nat i)) n\<rparr>))"
    using hk step by (subst home_loop.simps) simp
  then show ?case
    by (simp add: log_call_def home_calls_def)
qed

lemma home_loop_returns:
  assumes "home_loop high i k s = Some y"
  shows "in_array MAX_STEPPERS i \<and> steppers s (nat i) \<noteq> None \<longrightarrow> (\<exists>n. \<not> high n)"
proof (rule home_loop.raw_induct
    [where P = "\<lambda>high i k s y. in_array MAX_STEPPERS i \<and> steppers s (nat i) \<noteq> None \<longrightarrow> (\<exists>n. \<not> high n)",
     OF _ assms])
  fix hl high i k s y
  assume IH: "\<And>high i k s y. hl high i k s = Some y \<Longrightarrow>
      in_array MAX_STEPPERS i \<and> steppers s (nat i) \<noteq> None \<longrightarrow> (\<exists>n. \<not> high n)"
    and body: "(if high k
      then case onestep i (if is_left s (nat i) \<noteq> 0 then FORWARD else BACKWARD) SINGLE s of
             Done t \<Rightarrow> hl high i (Suc k) (log_call (Delay 25) t)
           | Undefined e t \<Rightarrow> Some (Undefined e t)
           | Blocked \<Rightarrow> Some Blocked
      else Some (Done s)) = Some y"
  show "in_array MAX_STEPPERS i \<and> steppers s (nat i) \<noteq> None \<longrightarrow> (\<exists>n. \<not> high n)"
  proof (intro impI)
    assume a: "in_array MAX_STEPPERS i \<and> steppers s (nat i) \<noteq> None"
    show "\<exists>n. \<not> high n"
    proof (cases "high k")
      case True
      let ?d = "if is_left s (nat i) \<noteq> 0 then FORWARD else BACKWARD"
      let ?s = "log_call (Delay 25) (log_call (OneStep (nat i) ?d SINGLE) s)"
      have "onestep i ?d SINGLE s = Done (log_call (OneStep (nat i) ?d SINGLE) s)"
        using a by (auto simp: onestep_def)
      then have "hl high i (Suc k) ?s = Some y"
        using body True by simp
      from IH [OF this] a show ?thesis
        by (simp add: log_call_def)
    next
      case False
      then show ?thesis by blast
    qed
  qed
qed

lemma home_loop_blocks:
  assumes "\<forall>n. high n" "in_array MAX_STEPPERS i" "steppers s (nat i) \<noteq> None"
  shows "home_loop high i k s = None"
proof (cases "home_loop high i k s")
  case None
  then show ?thesis .
next
  case (Some y)
  from home_loop_returns [OF this] assms show ?thesis
    by simp
qed

text \<open>
  C7. Homing of a declared axis \<open>a\<close> returns if and only if some read of the axis's
  limit pin is not \<^verbatim>\<open>HIGH\<close>. When the \<open>n\<close>-th read is the first such, it has made
  exactly \<open>n\<close> times a single step in the direction the orientation flag gives (forward
  when \<^verbatim>\<open>is_left\<close> is set, backward otherwise), each followed by \<^verbatim>\<open>delay(25)\<close>, and then has set
  the position of the axis to zero. When every read is \<^verbatim>\<open>HIGH\<close> it never returns.
\<close>

theorem home_stepper_terminates:
  assumes ready: "steppers_ready s"
    and axis: "0 \<le> a" "a < num_steppers s"
    and obj: "accel_steppers s (nat a) = Some m"
  shows "(home_stepper rd a s \<noteq> Blocked \<longleftrightarrow> (\<exists>n. \<not> rd (limit_pins ! nat a) n)) \<and>
         (\<forall>n. \<not> rd (limit_pins ! nat a) n \<and> (\<forall>k<n. rd (limit_pins ! nat a) k) \<longrightarrow>
            home_stepper rd a s =
              Done (s\<lparr>motor_calls := motor_calls s @ home_calls (nat a) (is_left s (nat a)) n,
                      accel_steppers := (accel_steppers s)(nat a \<mapsto> m\<lparr>currentPos := 0, targetPos := 0\<rparr>)\<rparr>)) \<and>
         ((\<forall>n. rd (limit_pins ! nat a) n) \<longrightarrow> home_stepper rd a s = Blocked)"
proof -
  let ?high = "rd (limit_pins ! nat a)"
  from steppers_ready_axis [OF ready axis]
  obtain mo where inb: "in_array MAX_STEPPERS a" and mo: "steppers s (nat a) = Some mo"
    by blast
  have pins: "in_array (int (length limit_pins)) a"
    using inb by (simp add: in_array_def limit_pins_def MAX_STEPPERS_def)
  have fin: "home_stepper rd a s =
      Done (s\<lparr>motor_calls := motor_calls s @ home_calls (nat a) (is_left s (nat a)) n,
              accel_steppers := (accel_steppers s)(nat a \<mapsto> m\<lparr>currentPos := 0, targetPos := 0\<rparr>)\<rparr>)"
    if n: "\<not> ?high n" "\<forall>k<n. ?high k" for n
  proof -
    have "home_loop ?high a 0 s =
        Some (Done (s\<lparr>motor_calls := motor_calls s @ home_calls (nat a) (is_left s (nat a)) n\<rparr>))"
      using n inb mo by (intro home_loop_finish) simp_all
    then show ?thesis
      using pins inb obj by (simp add: home_stepper_def on_accel_def setCurrentPosition_def)
  qed
  have blk: "home_stepper rd a s = Blocked" if "\<forall>n. ?high n"
    using home_loop_blocks [OF that inb, of s 0] mo pins by (simp add: home_stepper_def)
  have ret: "home_stepper rd a s \<noteq> Blocked" if ex: "\<exists>n. \<not> ?high n"
  proof -
    define n where "n = (LEAST n. \<not> ?high n)"
    have "\<not> ?high n" "\<forall>k<n. ?high k"
      unfolding n_def using ex LeastI_ex [of "\<lambda>n. \<not> ?high n"] not_less_Least by blast+
    from fin [OF this] show ?thesis
      by simp
  qed
  from fin blk ret show ?thesis
    by blast
qed

theorem home_stepper_terminates_witness:
  "home_stepper (\<lambda>pin k. pin = 24 \<and> k < 3) 1 two_axes =
     Done (two_axes\<lparr>motor_calls := motor_calls two_axes @
               [OneStep 1 BACKWARD SINGLE, Delay 25, OneStep 1 BACKWARD SINGLE, Delay 25,
                OneStep 1 BACKWARD SINGLE, Delay 25],
             accel_steppers := (accel_steppers two_axes)(1 \<mapsto>
               \<lparr>currentPos = 0, targetPos = 0, maxSpeed = 1500, acceleration = 500\<rparr>)\<rparr>) \<and>
   home_stepper (\<lambda>pin k. True) 1 two_axes = Blocked"
proof -
  let ?m = "\<lparr>currentPos = 0, targetPos = 0, maxSpeed = 1500, acceleration = 500\<rparr>"
  have r: "steppers_ready two_axes"
    by code_simp
  have n: "(0::int) \<le> 1" "1 < num_steppers two_axes"
    by code_simp+
  have m: "accel_steppers two_axes (nat 1) = Some ?m"
    by code_simp
  have l: "is_left two_axes (Suc 0) = 0" "limit_pins ! Suc 0 = 24"
    by code_simp+
  have "home_stepper (\<lambda>pin k. pin = 24 \<and> k < 3) 1 two_axes =
     Done (two_axes\<lparr>motor_calls := motor_calls two_axes @ home_calls (nat 1) (is_left two_axes (nat 1)) 3,
             accel_steppers := (accel_steppers two_axes)(nat 1 \<mapsto> ?m\<lparr>currentPos := 0, targetPos := 0\<rparr>)\<rparr>)"
    using home_stepper_terminates [OF r n m, of "\<lambda>pin k. pin = 24 \<and> k < 3"] l by simp
  moreover have "home_stepper (\<lambda>pin k. True) 1 two_axes = Blocked"
    using home_stepper_terminates [OF r n m, of "\<lambda>pin k. True"] by simp
  ultimately show ?thesis
    by (simp add: l home_calls_def numeral_3_eq_3)
qed

section \<open>The sampling interrupt writes one frame\<close>


lemma print_buffer_6:
  "print_buffer buf 6 =
     [PrintLong (buf 0), PrintChar CHR '' '', PrintLong (buf 1), PrintChar CHR '' '',
      PrintLong (buf 2), PrintChar CHR '' '', PrintLong (buf 3), PrintChar CHR '' '',
      PrintLong (buf 4), PrintChar CHR '' '', PrintLong (buf 5), PrintChar CHR '' '', Println]"
proof -
  have "[0..<6] = [0, 1, 2, 3, 4, 5::nat]"
    by (simp add: upt_rec)
  then show ?thesis
    by (simp add: print_buffer_def)
qed

lemma sample_whisker_ready:
  assumes "in_array MAX_WHISKERS j" "in_array MAX_STEPPERS (whisker_col_id t (nat j))"
    "accel_steppers t (nat (whisker_col_id t (nat j))) \<noteq> None"
  shows "\<exists>u. sample_whisker millis adc j t = Done u \<and>
           serial_out u = serial_out t @ telemetry_line t (millis j) (nat j) (adc j) \<and>
           whisker_col_id u = whisker_col_id t \<and> whisking_status u = whisking_status t \<and>
           accel_steppers u = accel_steppers t \<and> num_whiskers u = num_whiskers t"
  using assms
  by (auto simp: sample_whisker_def Let_def print_buffer_6 telemetry_line_def in_array_def)

lemma telemetry_line_cong:
  "whisker_col_id t = whisker_col_id s \<Longrightarrow> whisking_status t = whisking_status s \<Longrightarrow>
   accel_steppers t = accel_steppers s \<Longrightarrow> telemetry_line t = telemetry_line s"
  by (simp add: telemetry_line_def fun_eq_iff)

lemma timerIsr_ready:
  assumes ready: "whiskers_ready s" and on: "sampling s \<noteq> 0"
  shows "\<exists>t. timerIsr millis adc s = Done t \<and>
           serial_out t = serial_out s @
             concat (map (\<lambda>i. telemetry_line s (millis (int i)) i (adc (int i))) [0..<nat (num_whiskers s)])"
proof -
  define I where "I j t \<longleftrightarrow> whisker_col_id t = whisker_col_id s \<and> whisking_status t = whisking_status s \<and>
      accel_steppers t = accel_steppers s \<and> num_whiskers t = num_whiskers s \<and>
      serial_out t = serial_out s @
        concat (map (\<lambda>i. telemetry_line s (millis (int i)) i (adc (int i))) [0..<nat j])" for j and t :: state
  have "\<exists>u. for_loop 0 (num_whiskers s) (sample_whisker millis adc) s = Done u \<and> I (num_whiskers s) u"
    if "0 \<le> num_whiskers s"
  proof (rule for_loop_invariant)
    show "I 0 s"
      by (simp add: I_def)
    show "0 \<le> num_whiskers s"
      by (rule that)
    show "\<exists>u. sample_whisker millis adc j t = Done u \<and> I (j + 1) u"
      if j: "0 \<le> j" "j < num_whiskers s" and inv: "I j t" for j t
    proof -
      have nj: "nat j \<in> {0..<nat (num_whiskers s)}"
        using j by simp
      have a: "in_array MAX_WHISKERS j"
        using ready j by (simp add: whiskers_ready_def in_array_def)
      have b: "in_array MAX_STEPPERS (whisker_col_id t (nat j))"
        "accel_steppers t (nat (whisker_col_id t (nat j))) \<noteq> None"
        using ready nj inv unfolding whiskers_ready_def I_def by auto
      from sample_whisker_ready [OF a b, of millis adc]
      obtain u where u: "sample_whisker millis adc j t = Done u"
        "serial_out u = serial_out t @ telemetry_line t (millis j) (nat j) (adc j)"
        "whisker_col_id u = whisker_col_id t" "whisking_status u = whisking_status t"
        "accel_steppers u = accel_steppers t" "num_whiskers u = num_whiskers t"
        by blast
      have tl: "telemetry_line t = telemetry_line s"
        using inv by (intro telemetry_line_cong) (simp_all add: I_def)
      have up: "[0..<nat (j + 1)] = [0..<nat j] @ [nat j]"
        using j by (simp add: nat_add_distrib)
      have "I (j + 1) u"
        using inv u j unfolding I_def up tl by simp
      then show ?thesis using u(1) by blast
    qed
  qed
  moreover have "for_loop 0 (num_whiskers s) (sample_whisker millis adc) s = Done s \<and>
      I (num_whiskers s) s" if "num_whiskers s < 0"
    using that by (subst for_loop.simps) (simp add: I_def)
  ultimately have "\<exists>u. for_loop 0 (num_whiskers s) (sample_whisker millis adc) s = Done u \<and>
      I (num_whiskers s) u"
    by (cases "0 \<le> num_whiskers s") auto
  then show ?thesis
    using on by (auto simp: timerIsr_def I_def)
qed

text \<open>
  C4. When the sampling flag is 0 the handler returns the state it was given: nothing
  is written and nothing changes. When the flag is not 0, and the whisker count and the
  axes the whiskers are bound to lie within the supported hardware, the handler writes
  one line per whisker \<open>0, \<dots>, num_whiskers - 1\<close>, in that order and nothing else, and every
  line is the six fields of \<open>telemetry_line\<close>: time stamp, whisker, axis, phase of the axis,
  position of the axis, sensor reading, each followed by a blank. When \<^verbatim>\<open>millis()\<close>
  returns the same value \<open>now\<close> throughout the handler, every line starts with \<open>now\<close>.
\<close>

theorem timerIsr_frame:
  "(sampling s = 0 \<longrightarrow> timerIsr millis adc s = Done s) \<and>
   (sampling s \<noteq> 0 \<and> whiskers_ready s \<longrightarrow>
      (\<exists>t. timerIsr millis adc s = Done t \<and>
           serial_out t = serial_out s @
             concat (map (\<lambda>i. telemetry_line s (millis (int i)) i (adc (int i)))
                       [0..<nat (num_whiskers s)]))) \<and>
   (sampling s \<noteq> 0 \<and> whiskers_ready s \<and> (\<forall>i. millis i = now) \<longrightarrow>
      (\<exists>t. timerIsr millis adc s = Done t \<and>
           serial_out t = serial_out s @
             concat (map (\<lambda>i. telemetry_line s now i (adc (int i))) [0..<nat (num_whiskers s)])))"
proof (intro conjI impI)
  assume "sampling s = 0"
  then show "timerIsr millis adc s = Done s"
    by (simp add: timerIsr_def)
next
  assume "sampling s \<noteq> 0 \<and> whiskers_ready s"
  then show "\<exists>t. timerIsr millis adc s = Done t \<and>
           serial_out t = serial_out s @
             concat (map (\<lambda>i. telemetry_line s (millis (int i)) i (adc (int i)))
                       [0..<nat (num_whiskers s)])"
    using timerIsr_ready [of s millis adc] by blast
next
  assume a: "sampling s \<noteq> 0 \<and> whiskers_ready s \<and> (\<forall>i. millis i = now)"
  then have "(\<lambda>i. telemetry_line s (millis (int i)) i (adc (int i))) =
      (\<lambda>i. telemetry_line s now i (adc (int i)))"
    by simp
  then show "\<exists>t. timerIsr millis adc s = Done t \<and>
           serial_out t = serial_out s @
             concat (map (\<lambda>i. telemetry_line s now i (adc (int i))) [0..<nat (num_whiskers s)])"
    using timerIsr_ready [of s millis adc] a by simp
qed

theorem timerIsr_frame_witness:
  "timerIsr (\<lambda>i. 77) (\<lambda>i. 500 + i) two_axes = Done two_axes \<and>
   (\<exists>t. timerIsr (\<lambda>i. 77) (\<lambda>i. 500 + i) sampling_on = Done t \<and>
        serial_out t = serial_out sampling_on @
          [PrintLong 77, PrintChar CHR '' '', PrintLong 0, PrintChar CHR '' '', PrintLong 1,
           PrintChar CHR '' '', PrintLong 0, PrintChar CHR '' '', PrintLong 0, PrintChar CHR '' '',
           PrintLong 500, PrintChar CHR '' '', Println,
           PrintLong 77, PrintChar CHR '' '', PrintLong 1, PrintChar CHR '' '', PrintLong 1,
           PrintChar CHR '' '', PrintLong 0, PrintChar CHR '' '', PrintLong 0, PrintChar CHR '' '',
           PrintLong 501, PrintChar CHR '' '', Println,
           PrintLong 77, PrintChar CHR '' '', PrintLong 2, PrintChar CHR '' '', PrintLong 0,
           PrintChar CHR '' '', PrintLong 0, PrintChar CHR '' '', PrintLong 0, PrintChar CHR '' '',
           PrintLong 502, PrintChar CHR '' '', Println,
           PrintLong 77, PrintChar CHR '' '', PrintLong 3, PrintChar CHR '' '', PrintLong 0,
           PrintChar CHR '' '', PrintLong 0, PrintChar CHR '' '', PrintLong 0, PrintChar CHR '' '',
           PrintLong 503, PrintChar CHR '' '', Println])"
proof -
  have off: "sampling two_axes = 0"
    by code_simp
  have on: "sampling sampling_on \<noteq> 0"
    by (simp add: sampling_on_def)
  have r: "whiskers_ready sampling_on"
    by (simp add: whiskers_ready_def sampling_on_def two_axes_whiskers two_axes_accel ball_upt upt_rec
        MAX_WHISKERS_def MAX_STEPPERS_def in_array_def)
  have e: "concat (map (\<lambda>i. telemetry_line sampling_on 77 i (500 + int i))
                     [0..<nat (num_whiskers sampling_on)]) =
          [PrintLong 77, PrintChar CHR '' '', PrintLong 0, PrintChar CHR '' '', PrintLong 1,
           PrintChar CHR '' '', PrintLong 0, PrintChar CHR '' '', PrintLong 0, PrintChar CHR '' '',
           PrintLong 500, PrintChar CHR '' '', Println,
           PrintLong 77, PrintChar CHR '' '', PrintLong 1, PrintChar CHR '' '', PrintLong 1,
           PrintChar CHR '' '', PrintLong 0, PrintChar CHR '' '', PrintLong 0, PrintChar CHR '' '',
           PrintLong 501, PrintChar CHR '' '', Println,
           PrintLong 77, PrintChar CHR '' '', PrintLong 2, PrintChar CHR '' '', PrintLong 0,
           PrintChar CHR '' '', PrintLong 0, PrintChar CHR '' '', PrintLong 0, PrintChar CHR '' '',
           PrintLong 502, PrintChar CHR '' '', Println,
           PrintLong 77, PrintChar CHR '' '', PrintLong 3, PrintChar CHR '' '', PrintLong 0,
           PrintChar CHR '' '', PrintLong 0, PrintChar CHR '' '', PrintLong 0, PrintChar CHR '' '',
           PrintLong 503, PrintChar CHR '' '', Println]"
    by code_simp
  have "timerIsr (\<lambda>i. 77) (\<lambda>i. 500 + i) two_axes = Done two_axes"
    using timerIsr_frame [of two_axes "\<lambda>i. 77" "\<lambda>i. 500 + i" 77] off by simp
  moreover have "\<exists>t. timerIsr (\<lambda>i. 77) (\<lambda>i. 500 + i) sampling_on = Done t \<and>
        serial_out t = serial_out sampling_on @
          concat (map (\<lambda>i. telemetry_line sampling_on 77 i (500 + int i))
                     [0..<nat (num_whiskers sampling_on)])"
    using timerIsr_frame [of sampling_on "\<lambda>i. 77" "\<lambda>i. 500 + i" 77] on r by simp
  ultimately show ?thesis
    unfolding e by blast
qed

section \<open>The broadcast sentinel\<close>


lemma for_loop_each_axis: "for_loop i n body s = each_axis body [i..n - 1] s"
proof (induction i n body s rule: for_loop.induct)
  case (1 i n body s)
  show ?case
  proof (cases "i < n")
    case True
    then have "[i..n - 1] = i # [i + 1..n - 1]"
      by (simp add: upto_rec1)
    moreover have "for_loop (i + 1) n body = each_axis body [i + 1..n - 1]"
      using "1.IH" [OF True] by (simp add: fun_eq_iff)
    ultimately show ?thesis
      using True by (subst for_loop.simps) simp
  next
    case False
    then show ?thesis
      by (subst for_loop.simps) simp
  qed
qed

lemma each_axis_cong:
  "(\<And>i t. i \<in> set js \<Longrightarrow> f i t = g i t) \<Longrightarrow> each_axis f js s = each_axis g js s"
proof (induction js arbitrary: s)
  case Nil
  show ?case by simp
next
  case (Cons j js)
  have "each_axis f js = each_axis g js"
    using Cons by (simp add: fun_eq_iff)
  then show ?case
    using Cons.prems [of j s] by simp
qed

lemma each_axis_skip: "each_axis (\<lambda>i. Done) js s = Done s"
  by (induction js) simp_all

lemma declared_not_flag:
  "num_steppers s \<le> MAX_STEPPERS \<Longrightarrow> i \<in> set [0..num_steppers s - 1] \<Longrightarrow> i \<noteq> ALL_FLAG"
  by (auto simp: MAX_STEPPERS_def ALL_FLAG_def)

lemma for_loop_set_speed:
  assumes ready: "steppers_ready s"
  shows "\<exists>t. for_loop 0 (num_steppers s) (set_speed_axis v) s = Done t \<and>
           (\<forall>i\<in>{0..<nat (num_steppers s)}. \<exists>m. accel_steppers t i = Some m \<and> maxSpeed m = v)"
proof -
  define I where "I j t \<longleftrightarrow> steppers_ready t \<and> num_steppers t = num_steppers s \<and>
      (\<forall>i\<in>{0..<nat j}. \<exists>m. accel_steppers t i = Some m \<and> maxSpeed m = v)" for j and t :: state
  have "\<exists>u. for_loop 0 (num_steppers s) (set_speed_axis v) s = Done u \<and> I (num_steppers s) u"
  proof (rule for_loop_invariant)
    show "I 0 s"
      using ready by (simp add: I_def)
    show "0 \<le> num_steppers s"
      using ready by (simp add: steppers_ready_def)
    show "\<exists>u. set_speed_axis v j t = Done u \<and> I (j + 1) u"
      if j: "0 \<le> j" "j < num_steppers s" and inv: "I j t" for j t
    proof -
      from inv have rt: "steppers_ready t" and nt: "num_steppers t = num_steppers s"
        by (simp_all add: I_def)
      from steppers_ready_axis [OF rt j(1)] j(2) nt
      obtain m where inb: "in_array MAX_STEPPERS j" and m: "accel_steppers t (nat j) = Some m"
        by auto
      let ?u = "t\<lparr>accel_steppers := (accel_steppers t)(nat j \<mapsto> m\<lparr>maxSpeed := v\<rparr>)\<rparr>"
      have u: "set_speed_axis v j t = Done ?u"
        using inb m by (simp add: set_speed_axis_def on_accel_def setMaxSpeed_def)
      have "steppers_ready ?u"
        using m by (intro steppers_ready_update [OF rt]) auto
      moreover have "\<forall>i\<in>{0..<nat (j + 1)}. \<exists>m. accel_steppers ?u i = Some m \<and> maxSpeed m = v"
      proof
        fix i assume "i \<in> {0..<nat (j + 1)}"
        then have "i = nat j \<or> i \<in> {0..<nat j}"
          using j by auto
        then show "\<exists>m. accel_steppers ?u i = Some m \<and> maxSpeed m = v"
          using inv by (auto simp: I_def)
      qed
      ultimately have "I (j + 1) ?u"
        using nt by (simp add: I_def)
      then show ?thesis using u by blast
    qed
  qed
  then show ?thesis
    by (auto simp: I_def)
qed

text \<open>
  C6. With at most \<^verbatim>\<open>MAX_STEPPERS\<close> axes declared, each of the eight commands that take an
  axis, given the sentinel 999, returns exactly what applying the same command to the
  axes \<open>0, 1, \<dots>, num_steppers - 1\<close> one after the other returns. After
  \<^verbatim>\<open>set_speed ALL v\<close> on a ready state every declared axis has the maximum speed \<open>v\<close>. In a
  pass of \<^verbatim>\<open>loop()\<close> the motion loop starts from the state the commands of that pass
  have produced.
\<close>

theorem broadcast_each_axis:
  assumes bound: "num_steppers s \<le> MAX_STEPPERS"
  shows "set_prot ALL_FLAG v s = each_axis (\<lambda>i. set_prot i v) [0..num_steppers s - 1] s \<and>
         set_ret ALL_FLAG v s = each_axis (\<lambda>i. set_ret i v) [0..num_steppers s - 1] s \<and>
         set_speed ALL_FLAG v s = each_axis (\<lambda>i. set_speed i v) [0..num_steppers s - 1] s \<and>
         set_accel ALL_FLAG v s = each_axis (\<lambda>i. set_accel i v) [0..num_steppers s - 1] s \<and>
         whisk ALL_FLAG s = each_axis whisk [0..num_steppers s - 1] s \<and>
         home_stepper_cmd rd ALL_FLAG s = each_axis (home_stepper_cmd rd) [0..num_steppers s - 1] s \<and>
         halt_whisk bk ALL_FLAG s = each_axis (halt_whisk bk) [0..num_steppers s - 1] s \<and>
         retract ALL_FLAG s = each_axis retract [0..num_steppers s - 1] s \<and>
         (steppers_ready s \<longrightarrow>
            (\<exists>t. set_speed ALL_FLAG v s = Done t \<and>
                 (\<forall>i\<in>{0..<nat (num_steppers s)}. \<exists>m. accel_steppers t i = Some m \<and> maxSpeed m = v))) \<and>
         (\<forall>w t. receive_all (dispatch w) (rx w) s = Done t \<longrightarrow>
            loop w s = for_loop 0 (num_steppers t) (advance_axis (step_due w)) t)"
proof -
  let ?axes = "[0..num_steppers s - 1]"
  note nf = declared_not_flag [OF bound]
  have prot: "set_prot ALL_FLAG v s = each_axis (\<lambda>i. set_prot i v) ?axes s"
  proof (cases "v < MAX_STEPS \<and> v > 1")
    case True
    have "each_axis (\<lambda>i. set_prot i v) ?axes s = each_axis (set_prot_axis v) ?axes s"
      using True nf by (intro each_axis_cong) (simp add: set_prot_def)
    then show ?thesis
      using True by (simp add: set_prot_def for_loop_each_axis)
  next
    case False
    then have "(\<lambda>i. set_prot i v) = (\<lambda>i. Done)"
      by (auto simp: set_prot_def fun_eq_iff)
    then have "each_axis (\<lambda>i. set_prot i v) ?axes s = Done s"
      by (simp add: each_axis_skip)
    moreover have "set_prot ALL_FLAG v s = Done s"
      using False by (auto simp: set_prot_def)
    ultimately show ?thesis
      by simp
  qed
  have ret: "set_ret ALL_FLAG v s = each_axis (\<lambda>i. set_ret i v) ?axes s"
  proof (cases "v < MAX_STEPS \<and> v > 1")
    case True
    have "each_axis (\<lambda>i. set_ret i v) ?axes s = each_axis (set_ret_axis v) ?axes s"
      using True nf by (intro each_axis_cong) (simp add: set_ret_def)
    then show ?thesis
      using True by (simp add: set_ret_def for_loop_each_axis)
  next
    case False
    then have "(\<lambda>i. set_ret i v) = (\<lambda>i. Done)"
      by (auto simp: set_ret_def fun_eq_iff)
    then have "each_axis (\<lambda>i. set_ret i v) ?axes s = Done s"
      by (simp add: each_axis_skip)
    moreover have "set_ret ALL_FLAG v s = Done s"
      using False by (auto simp: set_ret_def)
    ultimately show ?thesis
      by simp
  qed
  have speed: "set_speed ALL_FLAG v s = each_axis (\<lambda>i. set_speed i v) ?axes s"
  proof -
    have "each_axis (\<lambda>i. set_speed i v) ?axes s = each_axis (set_speed_axis v) ?axes s"
      using nf by (intro each_axis_cong) (simp add: set_speed_def)
    then show ?thesis
      by (simp add: set_speed_def for_loop_each_axis)
  qed
  have accel: "set_accel ALL_FLAG v s = each_axis (\<lambda>i. set_accel i v) ?axes s"
  proof -
    have "each_axis (\<lambda>i. set_accel i v) ?axes s = each_axis (set_accel_axis v) ?axes s"
      using nf by (intro each_axis_cong) (simp add: set_accel_def)
    then show ?thesis
      by (simp add: set_accel_def for_loop_each_axis)
  qed
  have wh: "whisk ALL_FLAG s = each_axis whisk ?axes s"
  proof -
    have "each_axis whisk ?axes s = each_axis whisk_axis ?axes s"
      using nf by (intro each_axis_cong) (simp add: whisk_def)
    then show ?thesis
      by (simp add: whisk_def for_loop_each_axis)
  qed
  have home: "home_stepper_cmd rd ALL_FLAG s = each_axis (home_stepper_cmd rd) ?axes s"
  proof -
    have "each_axis (home_stepper_cmd rd) ?axes s = each_axis (home_stepper rd) ?axes s"
      using nf by (intro each_axis_cong) (simp add: home_stepper_cmd_def)
    then show ?thesis
      by (simp add: home_stepper_cmd_def for_loop_each_axis)
  qed
  have halt: "halt_whisk bk ALL_FLAG s = each_axis (halt_whisk bk) ?axes s"
  proof -
    have "each_axis (halt_whisk bk) ?axes s = each_axis (halt_whisk_axis bk) ?axes s"
      using nf by (intro each_axis_cong) (simp add: halt_whisk_def)
    then show ?thesis
      by (simp add: halt_whisk_def for_loop_each_axis)
  qed
  have retr: "retract ALL_FLAG s = each_axis retract ?axes s"
  proof -
    have "each_axis retract ?axes s = each_axis retract_axis ?axes s"
      using nf by (intro each_axis_cong) (simp add: retract_def)
    then show ?thesis
      by (simp add: retract_def for_loop_each_axis)
  qed
  have all_speed: "steppers_ready s \<longrightarrow>
            (\<exists>t. set_speed ALL_FLAG v s = Done t \<and>
                 (\<forall>i\<in>{0..<nat (num_steppers s)}. \<exists>m. accel_steppers t i = Some m \<and> maxSpeed m = v))"
    using for_loop_set_speed [of s v] by (simp add: set_speed_def)
  have order: "\<forall>w t. receive_all (dispatch w) (rx w) s = Done t \<longrightarrow>
            loop w s = for_loop 0 (num_steppers t) (advance_axis (step_due w)) t"
    by (simp add: loop_def)
  from prot ret speed accel wh home halt retr all_speed order show ?thesis
    by blast
qed


theorem broadcast_each_axis_witness:
  "set_speed ALL_FLAG 1200 two_axes = each_axis (\<lambda>i. set_speed i 1200) [0, 1] two_axes \<and>
   whisk ALL_FLAG two_axes = each_axis whisk [0, 1] two_axes \<and>
   (\<exists>t. set_speed ALL_FLAG 1200 two_axes = Done t \<and>
        (\<exists>m. accel_steppers t 0 = Some m \<and> maxSpeed m = 1200) \<and>
        (\<exists>m. accel_steppers t 1 = Some m \<and> maxSpeed m = 1200)) \<and>
   (\<exists>t. receive_all (dispatch speed_line) (rx speed_line) two_axes = Done t \<and>
        map (\<lambda>i. map_option maxSpeed (accel_steppers t i)) [0, 1] = [Some 1200, Some 1200] \<and>
        loop speed_line two_axes = for_loop 0 (num_steppers t) (advance_axis (step_due speed_line)) t)"
proof -
  have le: "num_steppers two_axes \<le> MAX_STEPPERS"
    by (simp add: two_axes_steppers MAX_STEPPERS_def)
  have axes: "[0..num_steppers two_axes - 1] = [0, 1]"
    by (simp add: two_axes_steppers upto_rec1)
  note th = broadcast_each_axis [OF le, of 1200 "digitalRead quiet_world" "brake quiet_world"]
  have a: "set_speed ALL_FLAG 1200 two_axes = each_axis (\<lambda>i. set_speed i 1200) [0, 1] two_axes"
    "whisk ALL_FLAG two_axes = each_axis whisk [0, 1] two_axes"
    using th unfolding axes by blast+
  from th two_axes_steppers(2)
  obtain t where t: "set_speed ALL_FLAG 1200 two_axes = Done t"
    "\<forall>i\<in>{0..<nat (num_steppers two_axes)}. \<exists>m. accel_steppers t i = Some m \<and> maxSpeed m = 1200"
    by blast
  from t(2) have b: "(\<exists>m. accel_steppers t 0 = Some m \<and> maxSpeed m = 1200) \<and>
        (\<exists>m. accel_steppers t 1 = Some m \<and> maxSpeed m = 1200)"
    by (simp add: two_axes_steppers)
  have c: "case receive_all (dispatch speed_line) (rx speed_line) two_axes of
             Done t \<Rightarrow> map (\<lambda>i. map_option maxSpeed (accel_steppers t i)) [0, 1] = [Some 1200, Some 1200]
           | _ \<Rightarrow> False"
    by code_simp
  then obtain u where u: "receive_all (dispatch speed_line) (rx speed_line) two_axes = Done u"
    "map (\<lambda>i. map_option maxSpeed (accel_steppers u i)) [0, 1] = [Some 1200, Some 1200]"
    by (auto split: outcome.splits)
  from th u(1) have l: "loop speed_line two_axes = for_loop 0 (num_steppers u) (advance_axis (step_due speed_line)) u"
    by blast
  have p3: "\<exists>t. set_speed ALL_FLAG 1200 two_axes = Done t \<and>
        (\<exists>m. accel_steppers t 0 = Some m \<and> maxSpeed m = 1200) \<and>
        (\<exists>m. accel_steppers t 1 = Some m \<and> maxSpeed m = 1200)"
    using t(1) b by (intro exI [of _ t] conjI) simp_all
  have p4: "\<exists>t. receive_all (dispatch speed_line) (rx speed_line) two_axes = Done t \<and>
        map (\<lambda>i. map_option maxSpeed (accel_steppers t i)) [0, 1] = [Some 1200, Some 1200] \<and>
        loop speed_line two_axes = for_loop 0 (num_steppers t) (advance_axis (step_due speed_line)) t"
    using u l by (intro exI [of _ u] conjI)
  show ?thesis
    by (intro conjI a p3 p4)
qed

section \<open>The axis argument is not checked\<close>


lemma home_stepper_null:
  assumes "in_array MAX_STEPPERS sid" "accel_steppers s (nat sid) = None" "steppers s (nat sid) = None"
  shows "home_stepper rd sid s = Undefined NullPointer s"
proof -
  have pins: "in_array (int (length limit_pins)) sid"
    using assms(1) by (simp add: in_array_def limit_pins_def MAX_STEPPERS_def)
  show ?thesis
  proof (cases "rd (limit_pins ! nat sid) 0")
    case True
    then have "home_loop (rd (limit_pins ! nat sid)) sid 0 s = Some (Undefined NullPointer s)"
      using assms by (subst home_loop.simps) (simp add: onestep_def)
    then show ?thesis
      using pins by (simp add: home_stepper_def)
  next
    case False
    then have "home_loop (rd (limit_pins ! nat sid)) sid 0 s = Some (Done s)"
      by (subst home_loop.simps) simp
    then show ?thesis
      using pins assms by (simp add: home_stepper_def on_accel_def)
  qed
qed

lemma home_stepper_outside:
  assumes "\<not> in_array MAX_STEPPERS sid"
  shows "home_stepper rd sid s = Undefined OutOfBounds s"
  using assms by (auto simp: home_stepper_def in_array_def limit_pins_def MAX_STEPPERS_def)

text \<open>
  C9. No branch compares the axis argument with the number of declared axes. For an
  argument \<open>sid\<close> that is neither the sentinel nor a declared axis: when \<open>sid\<close> is
  still an index of the arrays (\<open>num_steppers \<le> sid < MAX_STEPPERS\<close>), \<^verbatim>\<open>set_prot\<close> and
  \<^verbatim>\<open>set_ret\<close> with accepted steps store the target in the undeclared slot, \<^verbatim>\<open>whisk\<close>
  stores the phase 2 in the undeclared slot and then calls through the null pointer of
  the slot, and the other commands call through that null pointer at once; when \<open>sid\<close>
  is no index of the arrays, every command accesses them out of bounds. In no case is
  the command dropped for its axis argument.
\<close>

theorem axis_id_unchecked:
  assumes flag: "sid \<noteq> ALL_FLAG" and undeclared: "\<not> (0 \<le> sid \<and> sid < num_steppers s)"
  shows "(in_array MAX_STEPPERS sid \<longrightarrow>
            (1 < v \<and> v < MAX_STEPS \<longrightarrow>
               set_prot sid v s = Done (s\<lparr>prot_steps := (prot_steps s)(nat sid := v)\<rparr>) \<and>
               set_ret sid v s = Done (s\<lparr>ret_steps := (ret_steps s)(nat sid := v)\<rparr>)) \<and>
            (accel_steppers s (nat sid) = None \<and> steppers s (nat sid) = None \<longrightarrow>
               whisk sid s =
                 Undefined NullPointer (s\<lparr>whisking_status := (whisking_status s)(nat sid := 2)\<rparr>) \<and>
               set_speed sid v s = Undefined NullPointer s \<and>
               set_accel sid v s = Undefined NullPointer s \<and>
               halt_whisk bk sid s = Undefined NullPointer s \<and>
               retract sid s = Undefined NullPointer s \<and>
               home_stepper_cmd rd sid s = Undefined NullPointer s)) \<and>
         (\<not> in_array MAX_STEPPERS sid \<longrightarrow>
            (1 < v \<and> v < MAX_STEPS \<longrightarrow>
               set_prot sid v s = Undefined OutOfBounds s \<and>
               set_ret sid v s = Undefined OutOfBounds s) \<and>
            whisk sid s = Undefined OutOfBounds s \<and>
            set_speed sid v s = Undefined OutOfBounds s \<and>
            set_accel sid v s = Undefined OutOfBounds s \<and>
            halt_whisk bk sid s = Undefined OutOfBounds s \<and>
            retract sid s = Undefined OutOfBounds s \<and>
            home_stepper_cmd rd sid s = Undefined OutOfBounds s)"
proof (intro conjI impI)
  assume inb: "in_array MAX_STEPPERS sid" and ok: "1 < v \<and> v < MAX_STEPS"
  show "set_prot sid v s = Done (s\<lparr>prot_steps := (prot_steps s)(nat sid := v)\<rparr>)"
    using flag inb ok by (simp add: set_prot_def set_prot_axis_def)
  show "set_ret sid v s = Done (s\<lparr>ret_steps := (ret_steps s)(nat sid := v)\<rparr>)"
    using flag inb ok by (simp add: set_ret_def set_ret_axis_def)
next
  assume inb: "in_array MAX_STEPPERS sid"
    and null: "accel_steppers s (nat sid) = None \<and> steppers s (nat sid) = None"
  show "whisk sid s = Undefined NullPointer (s\<lparr>whisking_status := (whisking_status s)(nat sid := 2)\<rparr>)"
    using flag inb null by (simp add: whisk_def whisk_axis_def accel_moveTo_def on_accel_def)
  show "set_speed sid v s = Undefined NullPointer s"
    using flag inb null by (simp add: set_speed_def set_speed_axis_def on_accel_def)
  show "set_accel sid v s = Undefined NullPointer s"
    using flag inb null by (simp add: set_accel_def set_accel_axis_def on_accel_def)
  show "halt_whisk bk sid s = Undefined NullPointer s"
    using flag inb null by (simp add: halt_whisk_def halt_whisk_axis_def accel_stop_def on_accel_def)
  show "retract sid s = Undefined NullPointer s"
    using flag inb null by (simp add: retract_def retract_axis_def accel_moveTo_def on_accel_def)
  show "home_stepper_cmd rd sid s = Undefined NullPointer s"
    using flag home_stepper_null [OF inb, of s rd] null by (simp add: home_stepper_cmd_def)
next
  assume out: "\<not> in_array MAX_STEPPERS sid" and ok: "1 < v \<and> v < MAX_STEPS"
  show "set_prot sid v s = Undefined OutOfBounds s"
    using flag out ok by (simp add: set_prot_def set_prot_axis_def)
  show "set_ret sid v s = Undefined OutOfBounds s"
    using flag out ok by (simp add: set_ret_def set_ret_axis_def)
next
  assume out: "\<not> in_array MAX_STEPPERS sid"
  show "whisk sid s = Undefined OutOfBounds s"
    using flag out by (simp add: whisk_def whisk_axis_def)
  show "set_speed sid v s = Undefined OutOfBounds s"
    using flag out by (simp add: set_speed_def set_speed_axis_def on_accel_def)
  show "set_accel sid v s = Undefined OutOfBounds s"
    using flag out by (simp add: set_accel_def set_accel_axis_def on_accel_def)
  show "halt_whisk bk sid s = Undefined OutOfBounds s"
    using flag out by (simp add: halt_whisk_def halt_whisk_axis_def accel_stop_def on_accel_def)
  show "retract sid s = Undefined OutOfBounds s"
    using flag out by (simp add: retract_def retract_axis_def accel_moveTo_def on_accel_def)
  show "home_stepper_cmd rd sid s = Undefined OutOfBounds s"
    using flag home_stepper_outside [OF out, of rd s] by (simp add: home_stepper_cmd_def)
qed

lemma two_axes_undeclared:
  "accel_steppers two_axes 5 = None" "steppers two_axes 5 = None"
  by code_simp+

theorem axis_id_unchecked_witness:
  "set_prot 5 150 two_axes = Done (two_axes\<lparr>prot_steps := (prot_steps two_axes)(5 := 150)\<rparr>) \<and>
   whisk 5 two_axes =
     Undefined NullPointer (two_axes\<lparr>whisking_status := (whisking_status two_axes)(5 := 2)\<rparr>) \<and>
   retract 5 two_axes = Undefined NullPointer two_axes \<and>
   set_ret (- 1) 150 two_axes = Undefined OutOfBounds two_axes \<and>
   halt_whisk (\<lambda>i. 0) 16 two_axes = Undefined OutOfBounds two_axes"
proof -
  have f: "(5::int) \<noteq> ALL_FLAG" "(- 1::int) \<noteq> ALL_FLAG" "(16::int) \<noteq> ALL_FLAG"
    by (simp_all add: ALL_FLAG_def)
  have u: "\<not> (0 \<le> (5::int) \<and> 5 < num_steppers two_axes)"
    "\<not> (0 \<le> (- 1::int) \<and> - 1 < num_steppers two_axes)"
    "\<not> (0 \<le> (16::int) \<and> 16 < num_steppers two_axes)"
    by (simp_all add: two_axes_steppers)
  have i: "in_array MAX_STEPPERS 5" "\<not> in_array MAX_STEPPERS (- 1)" "\<not> in_array MAX_STEPPERS 16"
    by (simp_all add: in_array_def MAX_STEPPERS_def)
  have n: "accel_steppers two_axes (nat 5) = None \<and> steppers two_axes (nat 5) = None"
    using two_axes_undeclared by simp
  have "set_prot 5 150 two_axes = Done (two_axes\<lparr>prot_steps := (prot_steps two_axes)(nat 5 := 150)\<rparr>)"
    "whisk 5 two_axes =
       Undefined NullPointer (two_axes\<lparr>whisking_status := (whisking_status two_axes)(nat 5 := 2)\<rparr>)"
    "retract 5 two_axes = Undefined NullPointer two_axes"
    using axis_id_unchecked [OF f(1) u(1), of 150] i(1) n by (simp_all add: MAX_STEPS_def)
  moreover have "set_ret (- 1) 150 two_axes = Undefined OutOfBounds two_axes"
    using axis_id_unchecked [OF f(2) u(2), of 150] i(2) by (simp add: MAX_STEPS_def)
  moreover have "halt_whisk (\<lambda>i. 0) 16 two_axes = Undefined OutOfBounds two_axes"
    using axis_id_unchecked [OF f(3) u(3), of 150 "\<lambda>i. 0"] i(3) by simp
  ultimately show ?thesis
    by simp
qed

section \<open>The bound of the parser\<close>



lemma bare_set_prot:
  assumes "user_command_buffer_index s = 0"
  shows "\<exists>t. receive_all (dispatch w) (''set_prot'' @ [CHR 0x0D]) s = Undefined NullPointer t \<and>
           argument_words t 0 = Some 0 \<and> argument_words t 1 = None \<and>
           (\<forall>k\<ge>2. argument_words t k = argument_words s k)"
  using assms
  by (simp add: receive_def parse_def parse_loop.simps skip_separators.simps skip_argument.simps
      c_string.simps store_words_def dispatch_def word_at_def with_arg_def Let_def
      USER_COMMAND_BUFFER_LEN_def ARGUMENT_WORDS_LEN_def sizeof_argument_words_def sizeof_char_ptr_def
      NUL_def is_separator_def)


lemma skip_separators_total:
  "p < USER_COMMAND_BUFFER_LEN \<Longrightarrow> buf (USER_COMMAND_BUFFER_LEN - 1) = NUL \<Longrightarrow>
     \<exists>buf' p'. skip_separators buf p = Inr (buf', p') \<and> p' < USER_COMMAND_BUFFER_LEN \<and>
        buf' (USER_COMMAND_BUFFER_LEN - 1) = NUL"
proof (induction buf p rule: skip_separators.induct)
  case (1 buf p)
  show ?case
  proof (cases "is_separator (buf p)")
    case True
    have ne: "p \<noteq> USER_COMMAND_BUFFER_LEN - 1"
      using True "1.prems"(2) by (auto simp: is_separator_def NUL_def)
    then have lt: "Suc p < USER_COMMAND_BUFFER_LEN"
      using "1.prems"(1) by simp
    have a: "\<not> USER_COMMAND_BUFFER_LEN \<le> p"
      using "1.prems"(1) by simp
    have "(buf(p := NUL)) (USER_COMMAND_BUFFER_LEN - 1) = NUL"
      using "1.prems"(2) by simp
    from "1.IH" [OF a True lt this]
    obtain b q where r: "skip_separators (buf(p := NUL)) (Suc p) = Inr (b, q)"
      and q: "q < USER_COMMAND_BUFFER_LEN" "b (USER_COMMAND_BUFFER_LEN - 1) = NUL"
      by blast
    have "skip_separators buf p = skip_separators (buf(p := NUL)) (Suc p)"
      using a True by (subst skip_separators.simps) simp
    from this r have "skip_separators buf p = Inr (b, q)"
      by (rule trans)
    with q show ?thesis
      by blast
  next
    case False
    then show ?thesis
      using "1.prems" by (subst skip_separators.simps) simp
  qed
qed

lemma skip_argument_total:
  "p < USER_COMMAND_BUFFER_LEN \<Longrightarrow> buf (USER_COMMAND_BUFFER_LEN - 1) = NUL \<Longrightarrow>
     \<exists>p'. skip_argument buf p = Inr p' \<and> p' < USER_COMMAND_BUFFER_LEN"
proof (induction buf p rule: skip_argument.induct)
  case (1 buf p)
  show ?case
  proof (cases "buf p \<noteq> NUL \<and> \<not> is_separator (buf p)")
    case True
    have ne: "p \<noteq> USER_COMMAND_BUFFER_LEN - 1"
      using True "1.prems"(2) by auto
    then have lt: "Suc p < USER_COMMAND_BUFFER_LEN"
      using "1.prems"(1) by simp
    have a: "\<not> USER_COMMAND_BUFFER_LEN \<le> p"
      using "1.prems"(1) by simp
    from "1.IH" [OF a True lt "1.prems"(2)]
    obtain q where r: "skip_argument buf (Suc p) = Inr q" and q: "q < USER_COMMAND_BUFFER_LEN"
      by blast
    have "skip_argument buf p = skip_argument buf (Suc p)"
      using a True by (subst skip_argument.simps) simp
    from this r have "skip_argument buf p = Inr q"
      by (rule trans)
    with q show ?thesis
      by blast
  next
    case False
    then show ?thesis
      using "1.prems" by (subst skip_argument.simps) auto
  qed
qed

lemma parse_loop_bounded:
  "p < USER_COMMAND_BUFFER_LEN \<Longrightarrow> buf (USER_COMMAND_BUFFER_LEN - 1) = NUL \<Longrightarrow>
   Suc (length ws) < maxArgs \<Longrightarrow> maxArgs < 256 \<Longrightarrow> None \<notin> set ws \<Longrightarrow>
     \<exists>buf' ws'. parse_loop maxArgs buf p ws = Inr (buf', ws') \<and> Suc (length ws') \<le> maxArgs \<and>
        None \<notin> set ws'"
proof (induction maxArgs buf p ws rule: parse_loop.induct)
  case (1 maxArgs buf p ws)
  have a: "\<not> USER_COMMAND_BUFFER_LEN \<le> p"
    using "1.prems"(1) by simp
  show ?case
  proof (cases "buf p = NUL")
    case True
    then show ?thesis
      using a "1.prems" by (subst parse_loop.simps) simp
  next
    case False
    from skip_separators_total [of p buf, OF "1.prems"(1,2)]
    obtain buf' p' where sep: "skip_separators buf p = Inr (buf', p')"
      and p': "p' < USER_COMMAND_BUFFER_LEN" and nul': "buf' (USER_COMMAND_BUFFER_LEN - 1) = NUL"
      by blast
    have md: "Suc (length ws) mod 256 = Suc (length ws)"
      using "1.prems"(3,4) by simp
    show ?thesis
    proof (cases "int (Suc (length ws) mod 256) = int maxArgs - 1")
      case True
      then have "parse_loop maxArgs buf p ws = Inr (buf', ws @ [Some p'])"
        using a False sep by (subst parse_loop.simps) simp
      moreover have "Suc (length (ws @ [Some p'])) \<le> maxArgs"
        using True md by simp
      ultimately show ?thesis
        using "1.prems"(5) by simp
    next
      case stop: False
      from skip_argument_total [of p' buf', OF p' nul']
      obtain p'' where arg: "skip_argument buf' p' = Inr p''" and p'': "p'' < USER_COMMAND_BUFFER_LEN"
        by blast
      have more: "Suc (length (ws @ [Some p'])) < maxArgs"
        using stop md "1.prems"(3) by simp
      have "\<exists>b w. parse_loop maxArgs buf' p'' (ws @ [Some p']) = Inr (b, w) \<and>
          Suc (length w) \<le> maxArgs \<and> None \<notin> set w"
        using "1.prems"(4,5)
        by (intro "1.IH" [OF a False sep refl stop arg p'' nul' more]) simp_all
      then show ?thesis
        using a False sep stop arg by (subst parse_loop.simps) simp
    qed
  qed
qed

text \<open>
  C8, as the code has it. Called with a bound \<open>maxArgs\<close> from 2 to 255 on a buffer that
  ends in NUL, \<^verbatim>\<open>parse\<close> returns: it stores token pointers, none of them null, and then one
  null entry, at most \<open>maxArgs\<close> entries in all, so the last index it writes is below its
  bound. Where the entries fit the table, the entries of the table after them keep what
  an earlier line left there. For the line \<^verbatim>\<open>set_prot\<close> without arguments, received with an
  empty command buffer, the table afterwards has entry 0 pointing to the token and
  entry 1 null; the entries from 2 on are the old ones; and the dispatcher, converting
  its first argument, goes through the null entry: undefined behaviour.
\<close>

theorem parse_within_bound:
  "(2 \<le> maxArgs \<and> maxArgs < 256 \<and> line (USER_COMMAND_BUFFER_LEN - 1) = NUL \<longrightarrow>
      (\<exists>buf ws. parse maxArgs line = Inr (buf, ws @ [None]) \<and> None \<notin> set ws \<and>
          Suc (length ws) \<le> maxArgs \<and>
          (length (ws @ [None]) \<le> ARGUMENT_WORDS_LEN \<longrightarrow>
             (\<exists>tab'. store_words (ws @ [None]) tab = Inr tab' \<and>
                 (\<forall>k\<ge>length (ws @ [None]). tab' k = tab k))))) \<and>
   (user_command_buffer_index s = 0 \<longrightarrow>
      (\<exists>t. receive_all (dispatch w) (''set_prot'' @ [CHR 0x0D]) s = Undefined NullPointer t \<and>
           argument_words t 0 = Some 0 \<and> argument_words t 1 = None \<and>
           (\<forall>k\<ge>2. argument_words t k = argument_words s k)))"
proof (intro conjI impI)
  assume a: "2 \<le> maxArgs \<and> maxArgs < 256 \<and> line (USER_COMMAND_BUFFER_LEN - 1) = NUL"
  have "\<exists>buf' ws'. parse_loop maxArgs line 0 [] = Inr (buf', ws') \<and> Suc (length ws') \<le> maxArgs \<and>
        None \<notin> set ws'"
    using a by (intro parse_loop_bounded) (simp_all add: USER_COMMAND_BUFFER_LEN_def)
  then obtain buf ws where p: "parse_loop maxArgs line 0 [] = Inr (buf, ws)"
    "Suc (length ws) \<le> maxArgs" "None \<notin> set ws"
    by blast
  have "parse maxArgs line = Inr (buf, ws @ [None])"
    using p(1) by (simp add: parse_def)
  moreover have "length (ws @ [None]) \<le> ARGUMENT_WORDS_LEN \<longrightarrow>
             (\<exists>tab'. store_words (ws @ [None]) tab = Inr tab' \<and>
                 (\<forall>k\<ge>length (ws @ [None]). tab' k = tab k))"
    by (simp add: store_words_def)
  ultimately show "\<exists>buf ws. parse maxArgs line = Inr (buf, ws @ [None]) \<and> None \<notin> set ws \<and>
          Suc (length ws) \<le> maxArgs \<and>
          (length (ws @ [None]) \<le> ARGUMENT_WORDS_LEN \<longrightarrow>
             (\<exists>tab'. store_words (ws @ [None]) tab = Inr tab' \<and>
                 (\<forall>k\<ge>length (ws @ [None]). tab' k = tab k)))"
    using p(2,3) by blast
next
  assume "user_command_buffer_index s = 0"
  then show "\<exists>t. receive_all (dispatch w) (''set_prot'' @ [CHR 0x0D]) s = Undefined NullPointer t \<and>
           argument_words t 0 = Some 0 \<and> argument_words t 1 = None \<and>
           (\<forall>k\<ge>2. argument_words t k = argument_words s k)"
    by (rule bare_set_prot)
qed

theorem parse_within_bound_witness:
  "(\<exists>buf ws. parse 8 (c_line ''a b c d e f g h i j'') = Inr (buf, ws @ [None]) \<and> None \<notin> set ws \<and>
       Suc (length ws) \<le> 8) \<and>
   (\<exists>t. receive_all (dispatch quiet_world) (''set_prot'' @ [CHR 0x0D]) two_axes =
          Undefined NullPointer t \<and>
        argument_words t 0 = Some 0 \<and> argument_words t 1 = None \<and>
        (\<forall>k\<ge>2. argument_words t k = argument_words two_axes k))"
proof -
  have n: "c_line ''a b c d e f g h i j'' (USER_COMMAND_BUFFER_LEN - 1) = NUL"
    by (simp add: c_line_def USER_COMMAND_BUFFER_LEN_def)
  have i: "user_command_buffer_index two_axes = 0"
    by code_simp
  note th = parse_within_bound [of 8 "c_line ''a b c d e f g h i j''" "\<lambda>k. None" two_axes quiet_world]
  from th n have "\<exists>buf ws. parse 8 (c_line ''a b c d e f g h i j'') = Inr (buf, ws @ [None]) \<and>
       None \<notin> set ws \<and> Suc (length ws) \<le> 8"
    by simp blast
  moreover from th i have "\<exists>t. receive_all (dispatch quiet_world) (''set_prot'' @ [CHR 0x0D]) two_axes =
          Undefined NullPointer t \<and>
        argument_words t 0 = Some 0 \<and> argument_words t 1 = None \<and>
        (\<forall>k\<ge>2. argument_words t k = argument_words two_axes k)"
    by blast
  ultimately show ?thesis
    by (rule conjI)
qed

text \<open>
  The claim C8 itself fails on the line \<^verbatim>\<open>a b c d e f g h i j\<close>. With the bound the firmware
  passes, \<^verbatim>\<open>sizeof(argument_words)\<close>, the line is split into ten tokens, not at most eight,
  and eleven entries are stored. With the bound 8, seven tokens and the null entry are
  stored: eight entries, the last at index 7, none past the bound.
\<close>

theorem parse_counterexample:
  "map_sum id snd (parse (sizeof_argument_words mod 256) (c_line ''a b c d e f g h i j'')) =
     Inr [Some 0, Some 2, Some 4, Some 6, Some 8, Some 10, Some 12, Some 14, Some 16, Some 18, None] \<and>
   map_sum id snd (parse 8 (c_line ''a b c d e f g h i j'')) =
     Inr [Some 0, Some 2, Some 4, Some 6, Some 8, Some 10, Some 12, None]"
  by code_simp

section \<open>The binding of whiskers to axes\<close>

text \<open>
  C5 fails on the code. On the bring-up lines \<^verbatim>\<open>s 0 12 22 00\<close> and \<^verbatim>\<open>c\<close>, which declare two
  axes with two whiskers each, the binding loop of the second axis writes
  \<^verbatim>\<open>whisker_col_id[0]\<close> and \<^verbatim>\<open>whisker_col_id[1]\<close> again: the whiskers 0 and 1 end up bound to
  axis 1, the whiskers 2 and 3 are never bound and keep the initial 0.
\<close>

theorem whisker_binding_overwritten:
  "\<exists>t. setup_ino [''s 0 12 22 00'' @ [CHR 0x0D], ''c'' @ [CHR 0x0D]] init_state = Done t \<and>
       num_steppers t = 2 \<and> num_whiskers t = 4 \<and>
       map (whisker_col_id t) [0, 1, 2, 3] = [1, 1, 0, 0]"
proof -
  have "case setup_ino [''s 0 12 22 00'' @ [CHR 0x0D], ''c'' @ [CHR 0x0D]] init_state of
          Done t \<Rightarrow> num_steppers t = 2 \<and> num_whiskers t = 4 \<and>
            map (whisker_col_id t) [0, 1, 2, 3] = [1, 1, 0, 0]
        | _ \<Rightarrow> False"
    by code_simp
  then show ?thesis
    by (auto split: outcome.splits)
qed

section \<open>What bring-up establishes\<close>


lemma and_then_DoneE:
  "and_then r f = Done u \<Longrightarrow> \<exists>t. r = Done t \<and> f t = Done u"
  by (cases r) simp_all

lemma for_loop_rule:
  assumes "for_loop i n body s = Done u" and "I i s"
    and "\<And>j t t'. i \<le> j \<Longrightarrow> j < n \<Longrightarrow> I j t \<Longrightarrow> body j t = Done t' \<Longrightarrow> I (j + 1) t'"
    and "i \<le> n"
  shows "I n u"
  using assms
proof (induction i n body s rule: for_loop.induct)
  case (1 i n body s)
  show ?case
  proof (cases "i < n")
    case True
    then have "and_then (body i s) (for_loop (i + 1) n body) = Done u"
      using "1.prems"(1) by (subst (asm) for_loop.simps) simp
    then obtain t where t: "body i s = Done t" "for_loop (i + 1) n body t = Done u"
      by (auto dest: and_then_DoneE)
    have "I (i + 1) t"
      using "1.prems"(3) [of i s t] True "1.prems"(2) t(1) by simp
    show ?thesis
    proof (rule "1.IH" [OF True t(2) \<open>I (i + 1) t\<close>])
      show "I (j + 1) t'" if "i + 1 \<le> j" "j < n" "I j t0" "body j t0 = Done t'" for j t0 t'
        using "1.prems"(3) [of j t0 t'] that by simp
      show "i + 1 \<le> n" using True by simp
    qed
  next
    case False
    then have "i = n"
      using "1.prems"(4) by simp
    moreover have "u = s"
      using False "1.prems"(1) by (subst (asm) for_loop.simps) simp
    ultimately show ?thesis using "1.prems"(2) by simp
  qed
qed

lemma for_loop_preserves:
  assumes "for_loop i n body s = Done u" and "I s"
    and "\<And>j t t'. i \<le> j \<Longrightarrow> j < n \<Longrightarrow> I t \<Longrightarrow> body j t = Done t' \<Longrightarrow> I t'"
  shows "I u"
proof (cases "i \<le> n")
  case True
  show ?thesis
    by (rule for_loop_rule [where I = "\<lambda>j. I", OF assms(1,2) _ True]) (rule assms(3))
next
  case False
  then have "u = s"
    using assms(1) by (subst (asm) for_loop.simps) simp
  then show ?thesis using assms(2) by simp
qed

lemma for_loop_pin_mode:
  "for_loop i n (pin_mode m) s = Done u \<Longrightarrow> 0 \<le> i \<Longrightarrow> u = s \<and> (i < n \<longrightarrow> n \<le> m)"
proof (induction i n "pin_mode m" s rule: for_loop.induct)
  case (1 i n s)
  show ?case
  proof (cases "i < n")
    case True
    then have a: "and_then (pin_mode m i s) (for_loop (i + 1) n (pin_mode m)) = Done u"
      using "1.prems"(1) by (subst (asm) for_loop.simps) simp
    then have inb: "in_array m i"
      by (auto simp: pin_mode_def split: if_splits)
    with a have "for_loop (i + 1) n (pin_mode m) s = Done u"
      by (simp add: pin_mode_def)
    from "1.hyps" [OF True this] "1.prems"(2) have "u = s \<and> (i + 1 < n \<longrightarrow> n \<le> m)"
      by simp
    then show ?thesis
      using inb by (auto simp: in_array_def)
  next
    case False
    then show ?thesis
      using "1.prems"(1) by (subst (asm) for_loop.simps) simp
  qed
qed

lemma bind_whiskers_frame:
  assumes "for_loop 0 w bind_whisker s = Done t"
  shows "same_axes s t \<and>
         (\<forall>i. whisker_col_id t i = whisker_col_id s i \<or> whisker_col_id t i = num_steppers s)"
proof (rule for_loop_preserves [OF assms])
  show "same_axes s s \<and>
         (\<forall>i. whisker_col_id s i = whisker_col_id s i \<or> whisker_col_id s i = num_steppers s)"
    by (simp add: same_axes_def)
  show "same_axes s t' \<and>
         (\<forall>i. whisker_col_id t' i = whisker_col_id s i \<or> whisker_col_id t' i = num_steppers s)"
    if "same_axes s t0 \<and>
         (\<forall>i. whisker_col_id t0 i = whisker_col_id s i \<or> whisker_col_id t0 i = num_steppers s)"
      and "bind_whisker j t0 = Done t'" for j t0 t'
    using that by (auto simp: bind_whisker_def same_axes_def split: if_splits)
qed


lemma setup_inv_frame:
  "setup_inv s \<Longrightarrow> same_axes s t \<Longrightarrow> whisker_col_id t = whisker_col_id s \<Longrightarrow> setup_inv t"
  by (simp add: setup_inv_def same_axes_def)

lemma add_stepper_inv:
  assumes inv: "setup_inv s" and run: "add_stepper m w sd s = Done t"
  shows "setup_inv t"
proof (cases "m = 0")
  case True
  then show ?thesis
    using inv run by (simp add: add_stepper_def)
next
  case False
  from run False obtain t1 where t1:
    "(if w \<noteq> 0 then and_then (for_loop 0 w bind_whisker s)
         (\<lambda>t. Done (t\<lparr>num_whiskers := num_whiskers t + w\<rparr>)) else Done s) = Done t1"
    and fin: "(if in_array MAX_STEPPERS (num_steppers t1) then
                 Done (t1\<lparr>is_left := (is_left t1)(nat (num_steppers t1) := sd),
                          steppers := (steppers t1)(nat (num_steppers t1) \<mapsto>
                            \<lparr>on_shield = nat (num_shields t1),
                             steps_per_rev = STEPS_PER_REVOLUTION, port = m\<rparr>),
                          num_steppers := num_steppers t1 + 1\<rparr>)
               else Undefined OutOfBounds t1) = Done t"
    unfolding add_stepper_def by (auto dest: and_then_DoneE)
  have mid: "prot_steps t1 = prot_steps s \<and> ret_steps t1 = ret_steps s \<and>
      num_steppers t1 = num_steppers s \<and> steppers t1 = steppers s \<and>
      accel_steppers t1 = accel_steppers s \<and>
      (\<forall>i. whisker_col_id t1 i = whisker_col_id s i \<or> whisker_col_id t1 i = num_steppers s)"
  proof (cases "w = 0")
    case True
    then show ?thesis using t1 by simp
  next
    case False
    with t1 obtain t0 where "for_loop 0 w bind_whisker s = Done t0"
      "t1 = t0\<lparr>num_whiskers := num_whiskers t0 + w\<rparr>"
      by (auto dest!: and_then_DoneE)
    with bind_whiskers_frame [of w s t0] show ?thesis
      by (simp add: same_axes_def)
  qed
  from fin have inb: "in_array MAX_STEPPERS (num_steppers t1)"
    and t: "t = t1\<lparr>is_left := (is_left t1)(nat (num_steppers t1) := sd),
                          steppers := (steppers t1)(nat (num_steppers t1) \<mapsto>
                            \<lparr>on_shield = nat (num_shields t1),
                             steps_per_rev = STEPS_PER_REVOLUTION, port = m\<rparr>),
                          num_steppers := num_steppers t1 + 1\<rparr>"
    by (auto split: if_splits)
  have n: "0 \<le> num_steppers s" "num_steppers s < MAX_STEPPERS"
    using inb mid by (simp_all add: in_array_def)
  have st: "\<forall>i. steppers s i \<noteq> None \<longleftrightarrow> int i < num_steppers s"
    using inv by (simp add: setup_inv_def)
  have "\<forall>i. steppers t i \<noteq> None \<longleftrightarrow> int i < num_steppers t"
  proof
    fix i
    show "steppers t i \<noteq> None \<longleftrightarrow> int i < num_steppers t"
      using st [rule_format, of i] mid n by (cases "i = nat (num_steppers s)") (auto simp: t)
  qed
  moreover have "\<forall>i. whisker_col_id t i = 0 \<or>
      (0 \<le> whisker_col_id t i \<and> whisker_col_id t i < num_steppers t)"
  proof
    fix i
    have "whisker_col_id s i = 0 \<or> (0 \<le> whisker_col_id s i \<and> whisker_col_id s i < num_steppers s)"
      using inv by (simp add: setup_inv_def)
    moreover have "whisker_col_id t1 i = whisker_col_id s i \<or> whisker_col_id t1 i = num_steppers s"
      using mid by blast
    moreover have "num_steppers t1 = num_steppers s"
      using mid by blast
    ultimately show "whisker_col_id t i = 0 \<or>
      (0 \<le> whisker_col_id t i \<and> whisker_col_id t i < num_steppers t)"
      using n by (auto simp: t)
  qed
  ultimately show ?thesis
    using inv mid n unfolding setup_inv_def by (simp add: t)
qed

lemma add_shield_inv:
  assumes inv: "setup_inv s" and run: "add_shield sidx midx numw side s = Done t"
  shows "setup_inv t"
proof -
  let ?s = "s\<lparr>motor_shields := (motor_shields s)(nat (num_shields s) \<mapsto>
                      \<lparr>address = motorShield_addresses ! nat sidx\<rparr>)\<rparr>"
  from run obtain t1 t2 where
    a: "add_stepper (c_mod (c_div midx 10) 10) (c_mod (c_div numw 10) 10) (c_mod (c_div side 10) 10) ?s = Done t1"
    and b: "add_stepper (c_mod midx 10) (c_mod numw 10) (c_mod side 10) t1 = Done t2"
    and t: "t = t2\<lparr>num_shields := num_shields t2 + 1\<rparr>"
    unfolding add_shield_def Let_def by (auto split: if_splits dest!: and_then_DoneE)
  have "setup_inv ?s"
    using inv by (simp add: setup_inv_def)
  from add_stepper_inv [OF add_stepper_inv [OF this a] b] show ?thesis
    by (simp add: t setup_inv_def)
qed

lemma with_arg_DoneE:
  "with_arg k s f = Done t \<Longrightarrow> \<exists>v. f v = Done t"
  by (auto simp: with_arg_def split: sum.splits)

lemma setup_dispatch_inv:
  assumes inv: "setup_inv s" and run: "setup_dispatch s = Done t"
  shows "setup_inv t"
proof -
  from run obtain cmd where cmd: "word_at s 0 = Inr cmd"
    by (auto simp: setup_dispatch_def split: sum.splits)
  consider "cmd = ''s''" | "cmd \<noteq> ''s''" "cmd = ''p''" | "cmd \<noteq> ''s''" "cmd \<noteq> ''p''" "cmd = ''c''"
    | "cmd \<noteq> ''s''" "cmd \<noteq> ''p''" "cmd \<noteq> ''c''"
    by blast
  then show ?thesis
  proof cases
    case 1
    with run cmd obtain sidx midx numw side where "add_shield sidx midx numw side s = Done t"
      by (auto simp: setup_dispatch_def dest!: with_arg_DoneE)
    from add_shield_inv [OF inv this] show ?thesis .
  next
    case 2
    with run cmd obtain v where "t = s\<lparr>sampling_period := v mod 2 ^ 32\<rparr>"
      by (auto simp: setup_dispatch_def dest!: with_arg_DoneE)
    then show ?thesis using inv by (simp add: setup_inv_def)
  next
    case 3
    with run cmd have "t = s\<lparr>setup_complete := 1\<rparr>"
      by (auto simp: setup_dispatch_def)
    then show ?thesis using inv by (simp add: setup_inv_def)
  next
    case 4
    with run cmd have "t = s"
      by (auto simp: setup_dispatch_def)
    then show ?thesis using inv by simp
  qed
qed

lemma receive_inv:
  assumes inv: "setup_inv s" and run: "receive setup_dispatch ch s = Done t"
  shows "setup_inv t"
proof (cases "ch = CHR 0x0D")
  case True
  with run obtain buf tab t1 where
    d: "setup_dispatch (s\<lparr>user_command_buffer := buf, argument_words := tab\<rparr>) = Done t1"
    and t: "t = t1\<lparr>user_command_buffer_index := 0\<rparr>"
    by (auto simp: receive_def Let_def split: if_splits sum.splits prod.splits
        dest!: and_then_DoneE)
  have "setup_inv (s\<lparr>user_command_buffer := buf, argument_words := tab\<rparr>)"
    using inv by (simp add: setup_inv_def)
  from setup_dispatch_inv [OF this d] show ?thesis
    by (simp add: t setup_inv_def)
next
  case False
  then have "same_axes s t \<and> whisker_col_id t = whisker_col_id s"
    using run by (auto simp: receive_def same_axes_def split: if_splits)
  then show ?thesis
    using setup_inv_frame [OF inv] by blast
qed

lemma receive_all_inv:
  "setup_inv s \<Longrightarrow> receive_all setup_dispatch cs s = Done t \<Longrightarrow> setup_inv t"
proof (induction cs arbitrary: s)
  case Nil
  then show ?case by simp
next
  case (Cons ch cs)
  from Cons.prems(2) obtain s1 where "receive setup_dispatch ch s = Done s1"
    "receive_all setup_dispatch cs s1 = Done t"
    by (auto dest: and_then_DoneE)
  with Cons.IH [of s1] receive_inv [OF Cons.prems(1)] show ?case
    by blast
qed

lemma setup_wait_inv:
  "setup_inv s \<Longrightarrow> setup_wait bursts s = Done t \<Longrightarrow> setup_inv t"
proof (induction bursts arbitrary: s)
  case Nil
  then show ?case by (simp split: if_splits)
next
  case (Cons b bs)
  show ?case
  proof (cases "setup_complete s \<noteq> 0")
    case True
    then show ?thesis using Cons.prems by simp
  next
    case False
    with Cons.prems(2) obtain s1 where "receive_all setup_dispatch b s = Done s1"
      "setup_wait bs s1 = Done t"
      by (auto dest: and_then_DoneE)
    with Cons.IH [of s1] receive_all_inv [OF Cons.prems(1)] show ?thesis
      by blast
  qed
qed


lemma initializeSteppers_sets:
  assumes "initializeSteppers s = Done t" and "\<forall>i. accel_steppers s i = None" and "0 \<le> num_steppers s"
  shows "same_axes_but_accel s t \<and> (\<forall>i. accel_steppers t i \<noteq> None \<longleftrightarrow> int i < num_steppers s)"
proof -
  define I where "I j u \<longleftrightarrow> same_axes_but_accel s u \<and>
      (\<forall>i. accel_steppers u i \<noteq> None \<longleftrightarrow> int i < j)" for j and u :: state
  have "I (num_steppers s) t"
  proof (rule for_loop_rule [where I = I])
    show "for_loop 0 (num_steppers s) new_accel s = Done t"
      using assms(1) by (simp add: initializeSteppers_def)
    show "I 0 s"
      using assms(2) by (simp add: I_def same_axes_but_accel_def)
    show "0 \<le> num_steppers s"
      by (rule assms(3))
    show "I (j + 1) u'" if "0 \<le> j" "j < num_steppers s" "I j u" "new_accel j u = Done u'" for j u u'
    proof -
      from that(4) have u': "u' = u\<lparr>accel_steppers := (accel_steppers u)(nat j \<mapsto>
                 setAcceleration default_accel (setMaxSpeed default_speed new_AccelStepper))\<rparr>"
        by (auto simp: new_accel_def split: if_splits)
      have "\<forall>i. accel_steppers u' i \<noteq> None \<longleftrightarrow> int i < j + 1"
      proof
        fix i
        have "accel_steppers u i \<noteq> None \<longleftrightarrow> int i < j"
          using that(3) by (simp add: I_def)
        then show "accel_steppers u' i \<noteq> None \<longleftrightarrow> int i < j + 1"
          using that(1) by (cases "i = nat j") (auto simp: u')
      qed
      then show ?thesis
        using that(3) by (simp add: I_def same_axes_but_accel_def u')
    qed
  qed
  then show ?thesis
    by (simp add: I_def)
qed

lemma setup_ino_ready:
  assumes "setup_ino bursts init_state = Done s"
  shows "steppers_ready s \<and> whiskers_ready s \<and>
         prot_steps s = prot_steps init_state \<and> ret_steps s = ret_steps init_state \<and>
         (\<forall>i. num_steppers s \<le> int i \<longrightarrow> steppers s i = None \<and> accel_steppers s i = None)"
proof -
  let ?s0 = "log_call (Delay 250) init_state
             \<lparr>serial_out := serial_out init_state @ [PrintChar CHR ''!'', Println],
              setup_complete := 0, num_whiskers := 0\<rparr>"
  from assms obtain t u1 u2 where w: "setup_wait bursts ?s0 = Done t"
    and p1: "for_loop 0 (num_whiskers t) (pin_mode MAX_WHISKERS) t = Done u1"
    and p2: "for_loop 0 (num_steppers u1) (pin_mode (int (length limit_pins))) u1 = Done u2"
    and ini: "initializeSteppers u2 = Done s"
    unfolding setup_ino_def by (auto dest!: and_then_DoneE)
  have "setup_inv ?s0"
    by (simp add: setup_inv_def init_state_def log_call_def MAX_STEPPERS_def)
  from setup_wait_inv [OF this w] have inv: "setup_inv t" .
  from for_loop_pin_mode [OF p1] have u1: "u1 = t" and nw: "0 < num_whiskers t \<longrightarrow> num_whiskers t \<le> MAX_WHISKERS"
    by simp_all
  from for_loop_pin_mode [OF p2] have u2: "u2 = t"
    using u1 by simp
  from inv have none: "\<forall>i. accel_steppers t i = None" and n0: "0 \<le> num_steppers t"
    by (simp_all add: setup_inv_def)
  from initializeSteppers_sets [OF ini [unfolded u2] none n0]
  have same: "same_axes_but_accel t s"
    and acc: "\<forall>i. accel_steppers s i \<noteq> None \<longleftrightarrow> int i < num_steppers t"
    by simp_all
  have f: "prot_steps s = prot_steps t" "ret_steps s = ret_steps t" "num_steppers s = num_steppers t"
    "steppers s = steppers t" "num_whiskers s = num_whiskers t" "whisker_col_id s = whisker_col_id t"
    using same by (simp_all add: same_axes_but_accel_def)
  have st: "\<forall>i. steppers t i \<noteq> None \<longleftrightarrow> int i < num_steppers t"
    using inv by (simp add: setup_inv_def)
  have ready: "steppers_ready s"
    unfolding steppers_ready_def f
  proof (intro conjI ballI)
    show "0 \<le> num_steppers t" "num_steppers t \<le> MAX_STEPPERS"
      using inv by (simp_all add: setup_inv_def)
    fix i assume "i \<in> {0..<nat (num_steppers t)}"
    then have "int i < num_steppers t"
      by auto
    then show "steppers t i \<noteq> None" "accel_steppers s i \<noteq> None"
      using st acc by blast+
  qed
  have wready: "whiskers_ready s"
    unfolding whiskers_ready_def f
  proof (intro conjI ballI)
    show "num_whiskers t \<le> MAX_WHISKERS"
      using nw by (cases "0 < num_whiskers t") (simp_all add: MAX_WHISKERS_def)
    fix i assume i: "i \<in> {0..<nat (num_whiskers t)}"
    then have "num_whiskers t \<noteq> 0"
      by auto
    then have pos: "0 < num_steppers t" "num_steppers t \<le> MAX_STEPPERS"
      using inv by (auto simp: setup_inv_def)
    have c: "whisker_col_id t i = 0 \<or> (0 \<le> whisker_col_id t i \<and> whisker_col_id t i < num_steppers t)"
      using inv by (simp add: setup_inv_def)
    then have r: "0 \<le> whisker_col_id t i" "whisker_col_id t i < num_steppers t"
      using pos by auto
    then show "in_array MAX_STEPPERS (whisker_col_id t i)"
      using pos by (simp add: in_array_def)
    have "int (nat (whisker_col_id t i)) < num_steppers t"
      using r by simp
    then show "accel_steppers s (nat (whisker_col_id t i)) \<noteq> None"
      using acc by blast
  qed
  have "\<forall>i. num_steppers s \<le> int i \<longrightarrow> steppers s i = None \<and> accel_steppers s i = None"
  proof (intro allI impI)
    fix i assume "num_steppers s \<le> int i"
    then have "\<not> int i < num_steppers t"
      using f by simp
    then show "steppers s i = None \<and> accel_steppers s i = None"
      using st [rule_format, of i] acc [rule_format, of i] f by simp
  qed
  moreover have "prot_steps s = prot_steps init_state" "ret_steps s = ret_steps init_state"
    using inv f by (simp_all add: setup_inv_def)
  ultimately show ?thesis
    using ready wready by blast
qed

section \<open>The initial targets\<close>


text \<open>
  C10. Of the targets only those of axis 0 start at the defaults: \<^verbatim>\<open>prot_steps[0]\<close> is 133
  and \<^verbatim>\<open>ret_steps[0]\<close> is 22, every other element of both arrays is 0, and bring-up leaves
  the arrays alone. So after any bring-up, for a declared axis \<open>a \<ge> 1\<close>: \<^verbatim>\<open>whisk a\<close> issues
  the move to position 0, and as long as no command has changed \<^verbatim>\<open>ret_steps\<close>, the status
  check that ends the protraction issues the move to position 0 as well.
\<close>

theorem defaults_only_axis_0:
  "prot_steps init_state 0 = 133 \<and> ret_steps init_state 0 = 22 \<and>
   (\<forall>i. 0 < i \<longrightarrow> prot_steps init_state i = 0 \<and> ret_steps init_state i = 0) \<and>
   (\<forall>bursts s a. setup_ino bursts init_state = Done s \<and> 1 \<le> a \<and> a < num_steppers s \<longrightarrow>
      (\<exists>m. accel_steppers s (nat a) = Some m \<and>
           whisk a s =
             Done (s\<lparr>whisking_status := (whisking_status s)(nat a := 2),
                     accel_steppers := (accel_steppers s)(nat a \<mapsto> m\<lparr>targetPos := 0\<rparr>),
                     motor_calls := motor_calls s @ [MoveTo (nat a) 0]\<rparr>)) \<and>
      (\<forall>u mu. ret_steps u = ret_steps s \<and> whisking_status u (nat a) = 2 \<and>
           accel_steppers u (nat a) = Some mu \<and> distanceToGo mu = 0 \<longrightarrow>
           check_status a u =
             Done (u\<lparr>whisking_status := (whisking_status u)(nat a := 1),
                     accel_steppers := (accel_steppers u)(nat a \<mapsto> mu\<lparr>targetPos := 0\<rparr>),
                     motor_calls := motor_calls u @ [MoveTo (nat a) 0]\<rparr>)))"
proof (intro conjI allI impI)
  show "prot_steps init_state 0 = 133" "ret_steps init_state 0 = 22"
    by (simp_all add: init_state_def default_prot_def default_ret_def)
next
  fix i :: nat assume "0 < i"
  then show "prot_steps init_state i = 0" "ret_steps init_state i = 0"
    by (simp_all add: init_state_def)
next
  fix bursts s a
  assume a: "setup_ino bursts init_state = Done s \<and> 1 \<le> a \<and> a < num_steppers s"
  from setup_ino_ready [of bursts s] a
  have ready: "steppers_ready s" and p: "prot_steps s = prot_steps init_state"
    by simp_all
  from steppers_ready_axis [OF ready, of a] a
  obtain m where m: "accel_steppers s (nat a) = Some m"
    by auto
  have "prot_steps s (nat a) = 0"
    using a by (simp add: p init_state_def)
  with whisk_ready [OF ready _ _ m] a m
  show "\<exists>m. accel_steppers s (nat a) = Some m \<and>
           whisk a s =
             Done (s\<lparr>whisking_status := (whisking_status s)(nat a := 2),
                     accel_steppers := (accel_steppers s)(nat a \<mapsto> m\<lparr>targetPos := 0\<rparr>),
                     motor_calls := motor_calls s @ [MoveTo (nat a) 0]\<rparr>)"
    by simp
next
  fix bursts s a and u :: state and mu
  assume a: "setup_ino bursts init_state = Done s \<and> 1 \<le> a \<and> a < num_steppers s"
    and u: "ret_steps u = ret_steps s \<and> whisking_status u (nat a) = 2 \<and>
           accel_steppers u (nat a) = Some mu \<and> distanceToGo mu = 0"
  from setup_ino_ready [of bursts s] a
  have ready: "steppers_ready s" and r: "ret_steps s = ret_steps init_state"
    by simp_all
  have inb: "in_array MAX_STEPPERS a"
    using steppers_ready_axis [OF ready, of a] a by simp
  have "ret_steps u (nat a) = 0"
    using a u by (simp add: r init_state_def)
  then show "check_status a u =
             Done (u\<lparr>whisking_status := (whisking_status u)(nat a := 1),
                     accel_steppers := (accel_steppers u)(nat a \<mapsto> mu\<lparr>targetPos := 0\<rparr>),
                     motor_calls := motor_calls u @ [MoveTo (nat a) 0]\<rparr>)"
    using inb u by (simp add: check_status_def accel_moveTo_def on_accel_def moveTo_def log_call_def Let_def)
qed

lemma two_axes_setup:
  "setup_ino [''s 0 12 22 00'' @ [CHR 0x0D], ''c'' @ [CHR 0x0D]] init_state = Done two_axes"
proof -
  have "case setup_ino [''s 0 12 22 00'' @ [CHR 0x0D], ''c'' @ [CHR 0x0D]] init_state of
          Done t \<Rightarrow> True | _ \<Rightarrow> False"
    by code_simp
  then show ?thesis
    by (auto simp: two_axes_def split: outcome.splits)
qed

theorem defaults_only_axis_0_witness:
  "prot_steps init_state 0 = 133 \<and> ret_steps init_state 0 = 22 \<and>
   prot_steps init_state 1 = 0 \<and> ret_steps init_state 1 = 0 \<and>
   whisk 1 two_axes =
     Done (two_axes\<lparr>whisking_status := (whisking_status two_axes)(1 := 2),
             accel_steppers := (accel_steppers two_axes)(1 \<mapsto>
               \<lparr>currentPos = 0, targetPos = 0, maxSpeed = 1500, acceleration = 500\<rparr>),
             motor_calls := motor_calls two_axes @ [MoveTo 1 0]\<rparr>)"
proof -
  note th = defaults_only_axis_0
  from th have a: "prot_steps init_state 0 = 133" "ret_steps init_state 0 = 22"
    by simp_all
  from th have "\<forall>i. 0 < i \<longrightarrow> prot_steps init_state i = 0 \<and> ret_steps init_state i = 0"
    by simp
  from this [rule_format, of 1] have b: "prot_steps init_state 1 = 0" "ret_steps init_state 1 = 0"
    by simp_all
  from th have "\<forall>bursts s a. setup_ino bursts init_state = Done s \<and> 1 \<le> a \<and> a < num_steppers s \<longrightarrow>
      (\<exists>m. accel_steppers s (nat a) = Some m \<and>
           whisk a s =
             Done (s\<lparr>whisking_status := (whisking_status s)(nat a := 2),
                     accel_steppers := (accel_steppers s)(nat a \<mapsto> m\<lparr>targetPos := 0\<rparr>),
                     motor_calls := motor_calls s @ [MoveTo (nat a) 0]\<rparr>))"
    by blast
  from this [rule_format, of _ two_axes 1] two_axes_setup
  have "\<exists>m. accel_steppers two_axes (nat 1) = Some m \<and>
           whisk 1 two_axes =
             Done (two_axes\<lparr>whisking_status := (whisking_status two_axes)(nat 1 := 2),
                     accel_steppers := (accel_steppers two_axes)(nat 1 \<mapsto> m\<lparr>targetPos := 0\<rparr>),
                     motor_calls := motor_calls two_axes @ [MoveTo (nat 1) 0]\<rparr>)"
    by (simp add: two_axes_steppers)
  then have c: "whisk 1 two_axes =
     Done (two_axes\<lparr>whisking_status := (whisking_status two_axes)(1 := 2),
             accel_steppers := (accel_steppers two_axes)(1 \<mapsto>
               \<lparr>currentPos = 0, targetPos = 0, maxSpeed = 1500, acceleration = 500\<rparr>),
             motor_calls := motor_calls two_axes @ [MoveTo 1 0]\<rparr>)"
    by (auto simp: two_axes_accel)
  from a b c show ?thesis
    by simp
qed

section \<open>Targets are range-checked\<close>



lemma for_loop_set_prot:
  "0 \<le> i \<Longrightarrow> n \<le> MAX_STEPPERS \<Longrightarrow>
   for_loop i n (set_prot_axis v) s =
     Done (s\<lparr>prot_steps := (\<lambda>j. if i \<le> int j \<and> int j < n then v else prot_steps s j)\<rparr>)"
proof (induction i n "set_prot_axis v" s rule: for_loop.induct)
  case (1 i n s)
  show ?case
  proof (cases "i < n")
    case True
    have "for_loop i n (set_prot_axis v) s = for_loop (i + 1) n (set_prot_axis v) (s\<lparr>prot_steps := (prot_steps s)(nat i := v)\<rparr>)"
      using True 1(2,3) by (subst for_loop.simps) (simp add: set_prot_axis_def in_array_def and_then_def)
    also have "\<dots> = Done (s\<lparr>prot_steps := (prot_steps s)(nat i := v)\<rparr>\<lparr>prot_steps := (\<lambda>j. if i + 1 \<le> int j \<and> int j < n then v else prot_steps (s\<lparr>prot_steps := (prot_steps s)(nat i := v)\<rparr>) j)\<rparr>)"
      using True 1(2,3) by (intro "1.hyps") auto
    also have "\<dots> = Done (s\<lparr>prot_steps := (\<lambda>j. if i \<le> int j \<and> int j < n then v else prot_steps s j)\<rparr>)"
    proof -
      have "(\<lambda>j. if i + 1 \<le> int j \<and> int j < n then v else prot_steps (s\<lparr>prot_steps := (prot_steps s)(nat i := v)\<rparr>) j)
          = (\<lambda>j. if i \<le> int j \<and> int j < n then v else prot_steps s j)"
        using True 1(2) by (auto simp: fun_eq_iff)
      then show ?thesis by simp
    qed
    finally show ?thesis .
  next
    case False
    have "(\<lambda>j. if i \<le> int j \<and> int j < n then v else prot_steps s j) = prot_steps s"
      using False by (auto simp: fun_eq_iff)
    then show ?thesis using False by (subst for_loop.simps) simp
  qed
qed

text \<open>
  C2. For a declared axis \<open>a\<close> and \<open>steps \<le> 1\<close> or \<open>steps \<ge> MAX_STEPS\<close>, the commands
  \<^verbatim>\<open>set_prot\<close> and \<^verbatim>\<open>set_ret\<close>, for the axis or for \<^verbatim>\<open>ALL\<close>, leave the whole state as it
  was: no target changes and nothing is written to the serial line. For
  \<open>1 < steps < MAX_STEPS\<close> the target of the named axis becomes \<open>steps\<close>. After
  \<^verbatim>\<open>set_prot ALL 150\<close> and then \<^verbatim>\<open>set_prot 0 5000\<close> every declared axis has the protraction
  target 150.
\<close>

theorem set_targets_checked:
  assumes "num_steppers s \<le> MAX_STEPPERS" and "0 \<le> a" and "a < num_steppers s"
  shows "((steps \<le> 1 \<or> MAX_STEPS \<le> steps) \<longrightarrow>
            set_prot a steps s = Done s \<and> set_ret a steps s = Done s \<and>
            set_prot ALL_FLAG steps s = Done s \<and> set_ret ALL_FLAG steps s = Done s) \<and>
         ((1 < steps \<and> steps < MAX_STEPS) \<longrightarrow>
            set_prot a steps s = Done (s\<lparr>prot_steps := (prot_steps s)(nat a := steps)\<rparr>) \<and>
            set_ret a steps s = Done (s\<lparr>ret_steps := (ret_steps s)(nat a := steps)\<rparr>)) \<and>
         (\<exists>t. and_then (set_prot ALL_FLAG 150 s) (set_prot 0 5000) = Done t \<and>
              (\<forall>i. 0 \<le> i \<and> i < num_steppers s \<longrightarrow> prot_steps t (nat i) = 150))"
proof -
  have ne: "a \<noteq> ALL_FLAG"
    using assms by (simp add: ALL_FLAG_def MAX_STEPPERS_def)
  have inb: "in_array MAX_STEPPERS a"
    using assms by (simp add: in_array_def)
  have bad: "(steps \<le> 1 \<or> MAX_STEPS \<le> steps) \<longrightarrow>
            set_prot a steps s = Done s \<and> set_ret a steps s = Done s \<and>
            set_prot ALL_FLAG steps s = Done s \<and> set_ret ALL_FLAG steps s = Done s"
    by (auto simp: set_prot_def set_ret_def)
  have good: "(1 < steps \<and> steps < MAX_STEPS) \<longrightarrow>
            set_prot a steps s = Done (s\<lparr>prot_steps := (prot_steps s)(nat a := steps)\<rparr>) \<and>
            set_ret a steps s = Done (s\<lparr>ret_steps := (ret_steps s)(nat a := steps)\<rparr>)"
    using ne inb by (simp add: set_prot_def set_ret_def set_prot_axis_def set_ret_axis_def)
  have all: "set_prot ALL_FLAG 150 s =
      Done (s\<lparr>prot_steps := (\<lambda>j. if 0 \<le> int j \<and> int j < num_steppers s then 150 else prot_steps s j)\<rparr>)"
    using assms(1) by (simp add: set_prot_def MAX_STEPS_def for_loop_set_prot)
  have "and_then (set_prot ALL_FLAG 150 s) (set_prot 0 5000) =
      Done (s\<lparr>prot_steps := (\<lambda>j. if 0 \<le> int j \<and> int j < num_steppers s then 150 else prot_steps s j)\<rparr>)"
    by (subst all) (simp add: and_then_def set_prot_def MAX_STEPS_def)
  then have scen: "\<exists>t. and_then (set_prot ALL_FLAG 150 s) (set_prot 0 5000) = Done t \<and>
              (\<forall>i. 0 \<le> i \<and> i < num_steppers s \<longrightarrow> prot_steps t (nat i) = 150)"
    by simp
  from bad good scen show ?thesis by blast
qed

theorem set_targets_checked_witness:
  "set_prot 0 5000 two_axes = Done two_axes \<and>
   set_ret ALL_FLAG 1 two_axes = Done two_axes \<and>
   set_prot 1 150 two_axes = Done (two_axes\<lparr>prot_steps := (prot_steps two_axes)(nat 1 := 150)\<rparr>) \<and>
   (\<exists>t. and_then (set_prot ALL_FLAG 150 two_axes) (set_prot 0 5000) = Done t \<and>
        prot_steps t (nat 0) = 150 \<and> prot_steps t (nat 1) = 150)"
proof -
  have n: "num_steppers two_axes = 2"
    by code_simp
  have le: "num_steppers two_axes \<le> MAX_STEPPERS"
    by (simp add: n MAX_STEPPERS_def)
  have "set_prot 0 5000 two_axes = Done two_axes"
    using set_targets_checked [OF le, of 0 5000] by (simp add: n MAX_STEPS_def)
  moreover have "set_ret ALL_FLAG 1 two_axes = Done two_axes"
    using set_targets_checked [OF le, of 0 1] by (simp add: n)
  moreover have "set_prot 1 150 two_axes = Done (two_axes\<lparr>prot_steps := (prot_steps two_axes)(nat 1 := 150)\<rparr>)"
    using set_targets_checked [OF le, of 1 150] by (simp add: n MAX_STEPS_def)
  moreover have "\<exists>t. and_then (set_prot ALL_FLAG 150 two_axes) (set_prot 0 5000) = Done t \<and>
        prot_steps t (nat 0) = 150 \<and> prot_steps t (nat 1) = 150"
  proof -
    from set_targets_checked [OF le, of 0 0]
    obtain t where t: "and_then (set_prot ALL_FLAG 150 two_axes) (set_prot 0 5000) = Done t"
      "\<forall>i. 0 \<le> i \<and> i < num_steppers two_axes \<longrightarrow> prot_steps t (nat i) = 150"
      by (auto simp: n)
    from t(2) [rule_format, of 0] t(2) [rule_format, of 1] t(1) show ?thesis
      by (simp add: n)
  qed
  ultimately show ?thesis
    by blast
qed

end
